theory Spec2Isabelle
  imports Main "HOL-Library.Sublist"
begin

section \<open>JavaScript strings and numbers\<close>

text \<open>
  A JavaScript string is a sequence of UTF-16 code units. The model is \<^typ>\<open>string\<close>,
  whose characters are the code units U+0000 to U+00FF: the MRZ alphabet, the labels and
  the two guillemets the code looks for all lie in that range. Character classes are
  written as ranges of code units, as the regular expressions of the source are.
\<close>

definition code :: "char \<Rightarrow> nat" where
  "code c = of_char c"

definition isDigit :: "char \<Rightarrow> bool" where
  \<comment> \<open>\<open>\d\<close> and \<open>[0-9]\<close>\<close>
  "isDigit c = (48 \<le> code c \<and> code c \<le> 57)"

definition isUpper :: "char \<Rightarrow> bool" where
  \<comment> \<open>\<open>[A-Z]\<close>\<close>
  "isUpper c = (65 \<le> code c \<and> code c \<le> 90)"

definition isLower :: "char \<Rightarrow> bool" where
  \<comment> \<open>\<open>[a-z]\<close>\<close>
  "isLower c = (97 \<le> code c \<and> code c \<le> 122)"

definition isWord :: "char \<Rightarrow> bool" where
  \<comment> \<open>\<open>\w\<close>, that is \<open>[A-Za-z0-9_]\<close>\<close>
  "isWord c = (isUpper c \<or> isLower c \<or> isDigit c \<or> c = CHR ''_'')"

definition isSpace :: "char \<Rightarrow> bool" where
  \<comment> \<open>\<open>\s\<close> below U+0100: TAB, LF, VT, FF, CR, space and the no-break space\<close>
  "isSpace c = ((9 \<le> code c \<and> code c \<le> 13) \<or> code c = 32 \<or> code c = 160)"

definition digitVal :: "char \<Rightarrow> int" where
  "digitVal c = int (code c) - 48"

text \<open>
  A JavaScript number that the code only ever uses as an integer or as NaN:
  \<open>None\<close> is NaN. The sums of \<open>mrzChecksum\<close> stay far below \<open>2^53\<close> for every string
  a JavaScript engine can hold, so no rounding occurs.
\<close>

type_synonym jsnum = "int option"

definition num_add :: "jsnum \<Rightarrow> jsnum \<Rightarrow> jsnum" where
  "num_add a b = (case a of None \<Rightarrow> None | Some x \<Rightarrow> (case b of None \<Rightarrow> None | Some y \<Rightarrow> Some (x + y)))"

definition num_mul :: "jsnum \<Rightarrow> jsnum \<Rightarrow> jsnum" where
  "num_mul a b = (case a of None \<Rightarrow> None | Some x \<Rightarrow> (case b of None \<Rightarrow> None | Some y \<Rightarrow> Some (x * y)))"

definition num_rem :: "jsnum \<Rightarrow> int \<Rightarrow> jsnum" where
  \<comment> \<open>\<open>a % m\<close> for a positive \<open>m\<close>: the sign of the result is the sign of \<open>a\<close>\<close>
  "num_rem a m = (case a of None \<Rightarrow> None
                  | Some x \<Rightarrow> Some (if 0 \<le> x then x mod m else - ((- x) mod m)))"

definition num_lt :: "jsnum \<Rightarrow> jsnum \<Rightarrow> bool" where
  \<comment> \<open>\<open>a < b\<close>: false as soon as one side is NaN\<close>
  "num_lt a b = (case a of None \<Rightarrow> False | Some x \<Rightarrow> (case b of None \<Rightarrow> False | Some y \<Rightarrow> x < y))"

definition num_eq :: "jsnum \<Rightarrow> jsnum \<Rightarrow> bool" where
  \<comment> \<open>\<open>a === b\<close> on numbers: NaN is equal to nothing, not even to itself\<close>
  "num_eq a b = (case a of None \<Rightarrow> False | Some x \<Rightarrow> (case b of None \<Rightarrow> False | Some y \<Rightarrow> x = y))"

fun digitsValue :: "int \<Rightarrow> string \<Rightarrow> int" where
  "digitsValue acc [] = acc"
| "digitsValue acc (c # cs) = digitsValue (10 * acc + digitVal c) cs"

definition parseInt :: "string \<Rightarrow> jsnum" where
  \<comment> \<open>\<open>parseInt(s, 10)\<close>: leading white space is skipped, then an optional sign, then the
      longest run of decimal digits; no digit at all gives NaN\<close>
  "parseInt s =
     (let t = dropWhile isSpace s;
          neg = (t \<noteq> [] \<and> hd t = CHR ''-'');
          u = (if t \<noteq> [] \<and> (hd t = CHR ''-'' \<or> hd t = CHR ''+'') then tl t else t);
          ds = takeWhile isDigit u
      in if ds = [] then None
         else Some (if neg then - digitsValue 0 ds else digitsValue 0 ds))"

function natDigits :: "nat \<Rightarrow> string" where
  "natDigits n = (if n < 10 then [char_of (48 + n)] else natDigits (n div 10) @ [char_of (48 + n mod 10)])"
  by pat_completeness auto
termination
  by (relation "measure id") auto

definition String :: "jsnum \<Rightarrow> string" where
  \<comment> \<open>\<open>String(n)\<close> for an integer or NaN\<close>
  "String n = (case n of None \<Rightarrow> ''NaN''
               | Some x \<Rightarrow> (if x < 0 then CHR ''-'' # natDigits (nat (- x)) else natDigits (nat x)))"

definition slice :: "string \<Rightarrow> nat \<Rightarrow> nat \<Rightarrow> string" where
  \<comment> \<open>\<open>s.slice(a, b)\<close> for \<open>0 \<le> a \<le> b\<close>: the code units from \<open>a\<close> up to, not including,
      \<open>b\<close>, fewer when the string is shorter\<close>
  "slice s a b = take (b - a) (drop a s)"

definition padStart :: "string \<Rightarrow> nat \<Rightarrow> char \<Rightarrow> string" where
  "padStart s n c = replicate (n - length s) c @ s"

definition padEnd :: "string \<Rightarrow> nat \<Rightarrow> char \<Rightarrow> string" where
  "padEnd s n c = s @ replicate (n - length s) c"

fun indexOf :: "string \<Rightarrow> char \<Rightarrow> int" where
  \<comment> \<open>\<open>table.indexOf(c)\<close> for a one-character \<open>c\<close>: the first position, or \<open>-1\<close>\<close>
  "indexOf [] c = - 1"
| "indexOf (x # xs) c = (if x = c then 0 else (let r = indexOf xs c in if r < 0 then - 1 else r + 1))"

section \<open>Checksum engine\<close>

definition weights :: "int list" where
  "weights = [7, 3, 1]"

definition table :: string where
  "table = ''0123456789ABCDEFGHIJKLMNOPQRSTUVWXYZ''"

definition charVal :: "char \<Rightarrow> jsnum" where
  \<comment> \<open>the body of the loop of \<open>mrzChecksum\<close> up to \<open>if (val < 0) val = 0\<close>\<close>
  "charVal c =
     (let val = (if c = CHR ''<'' then Some 0
                 else if isDigit c then parseInt [c]
                 else Some (indexOf table c))
      in if num_lt val (Some 0) then Some 0 else val)"

function mrzChecksum_loop :: "string \<Rightarrow> nat \<Rightarrow> jsnum \<Rightarrow> jsnum" where
  "mrzChecksum_loop str i tot =
     (if i < length str
      then mrzChecksum_loop str (Suc i)
             (num_add tot (num_mul (charVal (str ! i)) (Some (weights ! (i mod 3)))))
      else tot)"
  by pat_completeness auto
termination
  by (relation "measure (\<lambda>(str, i, tot). length str - i)") auto

definition mrzChecksum :: "string \<Rightarrow> jsnum" where
  "mrzChecksum str = num_rem (mrzChecksum_loop str 0 (Some 0)) 10"

definition checksumOk :: "string \<Rightarrow> string \<Rightarrow> bool" where
  "checksumOk data check = num_eq (mrzChecksum data) (parseInt check)"

text \<open>
  The reference computation, written from the words of the specification: digits map to
  their value, the filler to 0, the letters A to Z to 10 up to 35 by their position in
  the alphabet, anything else to 0; each value is multiplied by the weight 7, 3, 1
  cycling by position; the sum is taken modulo 10.
\<close>

definition icao_value :: "char \<Rightarrow> int" where
  "icao_value c =
     (if isDigit c then digitVal c
      else if c = CHR ''<'' then 0
      else if isUpper c then 10 + (int (code c) - 65)
      else 0)"

definition icao_weight :: "nat \<Rightarrow> int" where
  "icao_weight i = (if i mod 3 = 0 then 7 else if i mod 3 = 1 then 3 else 1)"

definition icao_checksum :: "string \<Rightarrow> int" where
  "icao_checksum s = (\<Sum>i < length s. icao_value (s ! i) * icao_weight i) mod 10"

section \<open>Dates\<close>

definition parseMrzDate :: "string \<Rightarrow> string option" where
  "parseMrzDate yymmdd =
     (if yymmdd = [] \<or> length yymmdd \<noteq> 6 then None
      else
        let yy = parseInt (slice yymmdd 0 2);
            mm = slice yymmdd 2 4;
            dd = slice yymmdd 4 6;
            yyyy = (if num_lt (Some 30) yy then ''19'' @ padStart (String yy) 2 CHR ''0''
                    else ''20'' @ padStart (String yy) 2 CHR ''0'')
        in Some (yyyy @ ''-'' @ mm @ ''-'' @ dd))"

section \<open>String operations\<close>

definition upperChar :: "char \<Rightarrow> string" where
  \<comment> \<open>the upper-case mapping of one code unit below U+0100: a-z and the accented Latin-1
      letters move down by 32, the sharp s (U+00DF) becomes SS. The micro sign (U+00B5)
      and the y with diaeresis (U+00FF) have upper-case forms above U+00FF; they are
      left as they are, which no function below can tell apart: both forms are outside
      every character class used here\<close>
  "upperChar c =
     (if isLower c then [char_of (code c - 32)]
      else if code c = 223 then ''SS''
      else if 224 \<le> code c \<and> code c \<le> 254 \<and> code c \<noteq> 247 then [char_of (code c - 32)]
      else [c])"

definition toUpperCase :: "string \<Rightarrow> string" where
  "toUpperCase s = concat (map upperChar s)"

fun split :: "char \<Rightarrow> string \<Rightarrow> string list" where
  \<comment> \<open>\<open>s.split(c)\<close> for a one-character separator\<close>
  "split c [] = [[]]"
| "split c (x # xs) =
     (if x = c then [] # split c xs
      else (case split c xs of [] \<Rightarrow> [[x]] | p # ps \<Rightarrow> (x # p) # ps))"

definition trim :: "string \<Rightarrow> string" where
  "trim s = rev (dropWhile isSpace (rev (dropWhile isSpace s)))"

definition str_includes :: "string \<Rightarrow> string \<Rightarrow> bool" where
  \<comment> \<open>\<open>s.includes(t)\<close>\<close>
  "str_includes s t = sublist t s"

definition startsWith :: "string \<Rightarrow> string \<Rightarrow> bool" where
  "startsWith s t = prefix t s"

definition charAt :: "string \<Rightarrow> nat \<Rightarrow> string" where
  \<comment> \<open>\<open>s[i]\<close> as a string of one code unit. Past the end JavaScript gives \<open>undefined\<close>;
      the callers below read positions 6, 7, 14 and 29 of lines of 30 characters\<close>
  "charAt s i = take 1 (drop i s)"

section \<open>Regular expressions\<close>

text \<open>
  Every regular expression of the source that needs backtracking is a sequence of greedy
  repetitions of a character class (a literal is a class of one character repeated once),
  with \<open>\b\<close> in one of them. \<open>Rep P lo hi\<close> is the class \<open>P\<close> repeated at least \<open>lo\<close> and
  at most \<open>hi\<close> times (\<open>None\<close>: no upper bound). The matcher tries, for each repetition,
  the longest run first and gives characters back one at a time, as the backtracking
  matcher of JavaScript does; it returns the text matched by each item.
\<close>

datatype item = Rep "char \<Rightarrow> bool" nat "nat option" | WordB

definition atBoundary :: "char option \<Rightarrow> string \<Rightarrow> bool" where
  \<comment> \<open>\<open>\b\<close>: exactly one of the previous and the next character is a word character\<close>
  "atBoundary prev s =
     ((case prev of None \<Rightarrow> False | Some c \<Rightarrow> isWord c) \<noteq> (s \<noteq> [] \<and> isWord (hd s)))"

fun try_counts ::
  "(char option \<Rightarrow> string \<Rightarrow> string list option) \<Rightarrow> char option \<Rightarrow> string \<Rightarrow> nat \<Rightarrow> nat
     \<Rightarrow> string list option" where
  "try_counts k prev s lo 0 =
     (if 0 < lo then None
      else (case k prev s of None \<Rightarrow> None | Some segs \<Rightarrow> Some ([] # segs)))"
| "try_counts k prev s lo (Suc n) =
     (if Suc n < lo then None
      else (case k (Some (s ! n)) (drop (Suc n) s) of
              Some segs \<Rightarrow> Some (take (Suc n) s # segs)
            | None \<Rightarrow> try_counts k prev s lo n))"

primrec match_items :: "item list \<Rightarrow> char option \<Rightarrow> string \<Rightarrow> string list option" where
  "match_items [] = (\<lambda>prev s. Some [])"
| "match_items (it # its) =
     (\<lambda>prev s. case it of
        Rep P lo hi \<Rightarrow>
          (let avail = length (takeWhile P s);
               n = (case hi of None \<Rightarrow> avail | Some h \<Rightarrow> min h avail)
           in try_counts (match_items its) prev s lo n)
      | WordB \<Rightarrow>
          (if atBoundary prev s
           then (case match_items its prev s of None \<Rightarrow> None | Some segs \<Rightarrow> Some ([] # segs))
           else None))"

fun search :: "item list \<Rightarrow> char option \<Rightarrow> string \<Rightarrow> string list option" where
  \<comment> \<open>the leftmost match, as \<open>s.match(re)\<close> without the \<open>g\<close> flag finds it\<close>
  "search its prev [] = match_items its prev []"
| "search its prev (c # cs) =
     (case match_items its prev (c # cs) of
        Some segs \<Rightarrow> Some segs
      | None \<Rightarrow> search its (Some c) cs)"

fun matchAll :: "item list \<Rightarrow> char option \<Rightarrow> string \<Rightarrow> nat \<Rightarrow> string list" where
  \<comment> \<open>\<open>[...s.matchAll(re)]\<close> with the \<open>g\<close> flag, as the list of matched texts: the leftmost
      match, then the leftmost match that starts where the previous one ended (one
      character further after an empty match). \<open>skip\<close> counts the characters of the
      current match still to pass\<close>
  "matchAll its prev [] skip =
     (if skip = 0 then (case match_items its prev [] of None \<Rightarrow> [] | Some segs \<Rightarrow> [concat segs])
      else [])"
| "matchAll its prev (c # cs) skip =
     (if 0 < skip then matchAll its (Some c) cs (skip - 1)
      else (case match_items its prev (c # cs) of
              None \<Rightarrow> matchAll its (Some c) cs 0
            | Some segs \<Rightarrow> concat segs # matchAll its (Some c) cs (length (concat segs) - 1)))"

section \<open>MRZ grammar parser (TD1)\<close>

definition isMrzChar :: "char \<Rightarrow> bool" where
  \<comment> \<open>\<open>[A-Z0-9<]\<close>\<close>
  "isMrzChar c = (isUpper c \<or> isDigit c \<or> c = CHR ''<'')"

definition isNameChar :: "char \<Rightarrow> bool" where
  \<comment> \<open>\<open>[A-Z<]\<close>\<close>
  "isNameChar c = (isUpper c \<or> c = CHR ''<'')"

definition isFiller :: "char \<Rightarrow> bool" where
  "isFiller c = (c = CHR ''<'')"

definition isDot :: "char \<Rightarrow> bool" where
  \<comment> \<open>\<open>.\<close>: any code unit except the line terminators LF and CR\<close>
  "isDot c = (code c \<noteq> 10 \<and> code c \<noteq> 13)"

definition normalizeLine :: "string \<Rightarrow> string" where
  "normalizeLine line =
     filter (\<lambda>c. isWord c \<or> c = CHR ''<'')
       (map (\<lambda>c. if c = CHR 0xAB \<or> c = CHR 0xBB then CHR ''<'' else c)
          (map (\<lambda>c. if c = CHR ''O'' then CHR ''0'' else c)
             (filter (\<lambda>c. \<not> isSpace c) (toUpperCase line))))"

definition fillersToSpaces :: "string \<Rightarrow> string" where
  \<comment> \<open>\<open>.replace(/</g, " ")\<close>\<close>
  "fillersToSpaces s = map (\<lambda>c. if c = CHR ''<'' then CHR '' '' else c) s"

definition stripFillers :: "string \<Rightarrow> string" where
  \<comment> \<open>\<open>.replace(/</g, "")\<close>\<close>
  "stripFillers s = filter (\<lambda>c. c \<noteq> CHR ''<'') s"

definition nameRegex :: "item list" where
  \<comment> \<open>\<open>/^([A-Z<]+)<<([A-Z<]*).*/\<close>, matched at the start of the line\<close>
  "nameRegex = [Rep isNameChar 1 None, Rep isFiller 2 (Some 2), Rep isNameChar 0 None, Rep isDot 0 None]"

definition namePart :: "string \<Rightarrow> string" where
  \<comment> \<open>\<open>l3.replace(/^([A-Z<]+)<<([A-Z<]*).*/, "$1|$2")\<close>\<close>
  "namePart l3 =
     (case match_items nameRegex None l3 of
        None \<Rightarrow> l3
      | Some segs \<Rightarrow> segs ! 0 @ ''|'' @ segs ! 2 @ drop (length (concat segs)) l3)"

record checksums =
  ck_date_of_birth :: bool
  ck_expiration_date :: bool
  ck_composite :: bool
  ck_all_ok :: bool

record mrz =
  mrz_line1 :: string
  mrz_line2 :: string
  mrz_line3 :: string
  card_number :: string
  nationality :: string
  date_of_birth :: "string option"
  expiration_date :: "string option"
  sex :: string
  surname :: string
  names :: string
  checksums :: checksums

definition decodeTD1 :: "string \<Rightarrow> string \<Rightarrow> string \<Rightarrow> mrz" where
  \<comment> \<open>the body of the loop of \<open>parseMrzTD1\<close> after the test of the document marker\<close>
  "decodeTD1 l1 l2 l3 =
     (let dobRaw = slice l2 0 6;
          dobCheck = charAt l2 6;
          expRaw = slice l2 8 14;
          expCheck = charAt l2 14;
          dobOk = checksumOk dobRaw dobCheck;
          expOk = checksumOk expRaw expCheck;
          np = namePart l3;
          parts = (if str_includes np ''|'' then split CHR ''|'' np else [np, []]);
          rawSurname = parts ! 0;
          rawNames = parts ! 1;
          compositeData = slice l1 5 30 @ slice l2 0 7 @ slice l2 8 15 @ slice l2 18 29;
          compositeCheck = charAt l2 29;
          compositeOk = checksumOk compositeData compositeCheck
      in \<lparr> mrz_line1 = l1,
           mrz_line2 = l2,
           mrz_line3 = l3,
           card_number = stripFillers (slice l1 5 14),
           nationality = stripFillers (slice l1 2 5),
           date_of_birth = parseMrzDate dobRaw,
           expiration_date = parseMrzDate expRaw,
           sex = (if charAt l2 7 = ''M'' then ''M'' else if charAt l2 7 = ''F'' then ''F'' else ''X''),
           surname = trim (fillersToSpaces rawSurname),
           names = trim (fillersToSpaces rawNames),
           checksums = \<lparr> ck_date_of_birth = dobOk,
                         ck_expiration_date = expOk,
                         ck_composite = compositeOk,
                         ck_all_ok = (dobOk \<and> expOk \<and> compositeOk) \<rparr> \<rparr>)"

definition pad30 :: "string \<Rightarrow> string" where
  \<comment> \<open>\<open>.slice(0, 30).padEnd(30, "<")\<close>\<close>
  "pad30 l = padEnd (slice l 0 30) 30 CHR ''<''"

definition candidates :: "string \<Rightarrow> string list" where
  "candidates rawText =
     filter (\<lambda>l. 25 \<le> length l \<and> l \<noteq> [] \<and> list_all isMrzChar l)
       (map normalizeLine (split CHR 0x0A rawText))"

function parseMrzTD1_loop :: "string list \<Rightarrow> nat \<Rightarrow> mrz option" where
  "parseMrzTD1_loop cands i =
     (if i + 3 \<le> length cands
      then (let l1 = pad30 (cands ! i);
                l2 = pad30 (cands ! (i + 1));
                l3 = pad30 (cands ! (i + 2))
            in if \<not> startsWith l1 ''ID'' then parseMrzTD1_loop cands (Suc i)
               else Some (decodeTD1 l1 l2 l3))
      else None)"
  by pat_completeness auto
termination
  by (relation "measure (\<lambda>(cands, i). length cands - i)") auto

definition parseMrzTD1 :: "string \<Rightarrow> mrz option" where
  "parseMrzTD1 rawText = parseMrzTD1_loop (candidates rawText) 0"

definition compositeOk_spec :: "mrz \<Rightarrow> bool" where
  \<comment> \<open>the composite check as the specification words it: line 2 [18:29], then line 1
      [5:30], then line 2 [0:7], then line 2 [8:15], against line 2 [29]\<close>
  "compositeOk_spec r =
     checksumOk (slice (mrz_line2 r) 18 29 @ slice (mrz_line1 r) 5 30
                 @ slice (mrz_line2 r) 0 7 @ slice (mrz_line2 r) 8 15)
                (charAt (mrz_line2 r) 29)"

definition td1_sample :: string where
  \<comment> \<open>a TD1 zone with correct check digits, one line of the zone per line of text\<close>
  "td1_sample = ''IDFRAX4RTBPFW46<<<<<<<<<<<<<<<'' @ [CHR 0x0A]
              @ ''9007138M3002119FRA<<<<<<<<<<<6'' @ [CHR 0x0A]
              @ ''MARTIN<<MAELYS<GAELLE<MARIE<<<''"

definition td1_no_country :: string where
  \<comment> \<open>three candidate lines; the first starts with the marker, then digits\<close>
  "td1_no_country = ''ID1234567890123456789012345678'' @ [CHR 0x0A]
                  @ ''9007138M3002119FRA<<<<<<<<<<<6'' @ [CHR 0x0A]
                  @ ''MARTIN<<MAELYS<GAELLE<MARIE1<<''"

section \<open>Secondary engine: extraction from raw text\<close>

definition stripSpaces :: "string \<Rightarrow> string" where
  \<comment> \<open>\<open>.replace(/\s/g, "")\<close>\<close>
  "stripSpaces s = filter (\<lambda>c. \<not> isSpace c) s"

definition normalizeMrz :: "string \<Rightarrow> string" where
  "normalizeMrz str =
     map (\<lambda>c. if c = CHR ''B'' then CHR ''8'' else c)
       (map (\<lambda>c. if c = CHR ''I'' then CHR ''1'' else c)
          (map (\<lambda>c. if c = CHR ''O'' then CHR ''0'' else c)
             (stripSpaces (toUpperCase str))))"

definition isAlnumUpper :: "char \<Rightarrow> bool" where
  \<comment> \<open>\<open>[0-9A-Z]\<close>\<close>
  "isAlnumUpper c = (isDigit c \<or> isUpper c)"

definition isLabelN :: "char \<Rightarrow> bool" where
  \<comment> \<open>\<open>n\<close> under the \<open>i\<close> flag\<close>
  "isLabelN c = (c = CHR ''n'' \<or> c = CHR ''N'')"

definition isLabel2 :: "char \<Rightarrow> bool" where
  \<comment> \<open>\<open>[o\<degree>\<ordmasculine> s]\<close> under the \<open>i\<close> flag; the degree sign is U+00B0, the masculine
      ordinal U+00BA\<close>
  "isLabel2 c = (c = CHR ''o'' \<or> c = CHR ''O'' \<or> c = CHR 0xB0 \<or> c = CHR 0xBA
                 \<or> c = CHR '' '' \<or> c = CHR ''s'' \<or> c = CHR ''S'')"

definition isLabel3 :: "char \<Rightarrow> bool" where
  \<comment> \<open>\<open>[s\<degree>]\<close> under the \<open>i\<close> flag\<close>
  "isLabel3 c = (c = CHR ''s'' \<or> c = CHR ''S'' \<or> c = CHR 0xB0)"

definition isColon :: "char \<Rightarrow> bool" where
  "isColon c = (c = CHR '':'')"

definition labelRegex :: "item list" where
  \<comment> \<open>\<open>/n[o\<degree>\<ordmasculine> s][s\<degree>]?\s*:?\s*([0-9]{12})/i\<close>; the group is item 6\<close>
  "labelRegex = [Rep isLabelN 1 (Some 1), Rep isLabel2 1 (Some 1), Rep isLabel3 0 (Some 1),
                 Rep isSpace 0 None, Rep isColon 0 (Some 1), Rep isSpace 0 None,
                 Rep isDigit 12 (Some 12)]"

definition wordDigitsRegex :: "item list" where
  \<comment> \<open>\<open>/\b([0-9]{12})\b/\<close>; the group is item 1\<close>
  "wordDigitsRegex = [WordB, Rep isDigit 12 (Some 12), WordB]"

fun extractCardNumber_lines :: "string list \<Rightarrow> string option" where
  \<comment> \<open>the \<open>for\<close> loop of \<open>extractCardNumberFromText\<close>\<close>
  "extractCardNumber_lines [] = None"
| "extractCardNumber_lines (line # lines) =
     (if str_includes line ''<'' then extractCardNumber_lines lines
      else (case search wordDigitsRegex None line of
              Some segs \<Rightarrow> Some (segs ! 1)
            | None \<Rightarrow> extractCardNumber_lines lines))"

definition extractCardNumberFromText :: "string \<Rightarrow> string option" where
  "extractCardNumberFromText text =
     (case search labelRegex None text of
        Some segs \<Rightarrow> Some (segs ! 6)
      | None \<Rightarrow>
          (case extractCardNumber_lines (split CHR 0x0A text) of
             Some m \<Rightarrow> Some m
           | None \<Rightarrow>
               (case search wordDigitsRegex None text of
                  Some segs \<Rightarrow> Some (segs ! 1)
                | None \<Rightarrow> None)))"

definition startDigitsRegex :: "item list" where
  \<comment> \<open>\<open>/^[0-9]{9,12}/\<close>\<close>
  "startDigitsRegex = [Rep isDigit 9 (Some 12)]"

definition line2Regex :: "item list" where
  \<comment> \<open>\<open>/([0-9]{9,12}[0-9A-Z]{5,}[<][0-9A-Z<]{10,})/g\<close>\<close>
  "line2Regex = [Rep isDigit 9 (Some 12), Rep isAlnumUpper 5 None, Rep isFiller 1 (Some 1),
                 Rep isMrzChar 10 None]"

definition looksLikeLine2 :: "string \<Rightarrow> bool" where
  \<comment> \<open>the test of the \<open>for\<close> loop of \<open>extractMrzLine2FromText\<close>\<close>
  "looksLikeLine2 clean =
     (match_items startDigitsRegex None clean \<noteq> None \<and> str_includes clean ''<''
      \<and> 27 \<le> length clean \<and> clean \<noteq> [] \<and> list_all isMrzChar clean)"

fun extractMrzLine2_lines :: "string list \<Rightarrow> string option" where
  \<comment> \<open>the \<open>for\<close> loop of \<open>extractMrzLine2FromText\<close>\<close>
  "extractMrzLine2_lines [] = None"
| "extractMrzLine2_lines (line # lines) =
     (let clean = toUpperCase (stripSpaces line)
      in if looksLikeLine2 clean then Some clean else extractMrzLine2_lines lines)"

definition sortByLengthDesc :: "string list \<Rightarrow> string list" where
  \<comment> \<open>\<open>.sort((a, b) => b[0].length - a[0].length)\<close>: a stable sort, longest first\<close>
  "sortByLengthDesc ms = sort_key (\<lambda>m. - int (length m)) ms"

definition extractMrzLine2FromText :: "string \<Rightarrow> string option" where
  "extractMrzLine2FromText text =
     (case extractMrzLine2_lines (split CHR 0x0A text) of
        Some clean \<Rightarrow> Some clean
      | None \<Rightarrow>
          (let fullClean = toUpperCase (stripSpaces text);
               mrzMatches = matchAll line2Regex None fullClean 0
           in if 0 < length mrzMatches then Some (hd (sortByLengthDesc mrzMatches)) else None))"

text \<open>
  The shape that the regular expression of the second search describes: 9 to 12 digits,
  then at least 5 characters of \<open>[0-9A-Z]\<close>, then one filler, then at least 10 characters
  of \<open>[0-9A-Z<]\<close>.
\<close>

definition line2Shape :: "string \<Rightarrow> bool" where
  "line2Shape w =
     (\<exists>a b c. w = a @ b @ ''<'' @ c
        \<and> 9 \<le> length a \<and> length a \<le> 12 \<and> list_all isDigit a
        \<and> 5 \<le> length b \<and> list_all isAlnumUpper b
        \<and> 10 \<le> length c \<and> list_all isMrzChar c)"

definition line2Line :: "string \<Rightarrow> bool" where
  \<comment> \<open>the four conditions of the first search, in the words of the specification\<close>
  "line2Line clean =
     (27 \<le> length clean \<and> list_all isMrzChar clean
      \<and> (\<exists>k. 9 \<le> k \<and> k \<le> 12 \<and> k \<le> length clean \<and> list_all isDigit (take k clean))
      \<and> CHR ''<'' \<in> set clean)"

text \<open>
  What a successful match means, item by item: the text matched by a repetition has a
  length within the bounds and lies in the class; \<open>\b\<close> matches the empty text.
\<close>

fun fits :: "item \<Rightarrow> string \<Rightarrow> bool" where
  "fits (Rep P lo hi) g =
     (lo \<le> length g \<and> (case hi of None \<Rightarrow> True | Some h \<Rightarrow> length g \<le> h) \<and> list_all P g)"
| "fits WordB g = (g = [])"

fun isRep :: "item \<Rightarrow> bool" where
  "isRep (Rep P lo hi) = True"
| "isRep WordB = False"

definition prevAfter :: "char option \<Rightarrow> string \<Rightarrow> nat \<Rightarrow> char option" where
  \<comment> \<open>the character before position \<open>m\<close> of \<open>s\<close>, when \<open>prev\<close> is the one before \<open>s\<close>\<close>
  "prevAfter prev s m = (if m = 0 then prev else Some (s ! (m - 1)))"

definition cleanLines :: "string \<Rightarrow> string list" where
  \<comment> \<open>the lines of the text, each stripped of white space and upper-cased\<close>
  "cleanLines text = map (\<lambda>line. toUpperCase (stripSpaces line)) (split CHR 0x0A text)"

definition fullClean :: "string \<Rightarrow> string" where
  \<comment> \<open>the whole text stripped of white space and upper-cased\<close>
  "fullClean text = toUpperCase (stripSpaces text)"

definition line2_text_a :: string where
  \<comment> \<open>a text whose second line is an MRZ line 2 with spaces\<close>
  "line2_text_a = ''Carte abc'' @ [CHR 0x0A] @ ''190238151174 9304301 M 3306275 FRA<<<<<<<<<<<0''"

definition line2_text_b :: string where
  \<comment> \<open>a text with no such line: the MRZ line 2 is cut in two by a line break and is
      followed by other characters\<close>
  "line2_text_b = ''abc 1902381511'' @ [CHR 0x0A]
                @ ''749304301M3306275FRA<<<<<<<<<<<0 / 123456789ABCDE<0123456789<<<<<''"

section \<open>JSON values\<close>

text \<open>
  The JSON objects that the service sends and the nodes read and write: an association
  list from keys to values, a value being a scalar or such an object. \<open>JUndefined\<close> is what reading an absent key gives; a key bound
  to \<open>JNull\<close> is an explicit null.
\<close>

datatype jv = JNull | JBool bool | JNum int | JStr string | JUndefined
  | JObj "(string \<times> jv) list"

type_synonym json = "(string \<times> jv) list"

definition get :: "json \<Rightarrow> string \<Rightarrow> jv" where
  \<comment> \<open>\<open>obj.key\<close>\<close>
  "get obj k = (case map_of obj k of None \<Rightarrow> JUndefined | Some v \<Rightarrow> v)"



definition falsy :: "string option \<Rightarrow> bool" where
  \<comment> \<open>\<open>!x\<close> for a value that is a string or null\<close>
  "falsy x = (case x of None \<Rightarrow> True | Some s \<Rightarrow> s = [])"

section \<open>Engine orchestrator\<close>

text \<open>
  The external tools are taken at the interface of \<open>run\<close>: a call either resolves or
  rejects with an error message. One request sees one world: the outcome of each call it
  may make. The concurrency limiter, the log and the removal of the work directory are not
  modelled. The handler returns the list of the tools it has spawned, in order, and its
  response (none when \<open>fs.mkdtemp\<close> rejects outside the \<open>try\<close> block).
\<close>

datatype 'a outcome = Resolved 'a | Rejected string

datatype tool = Pdftoppm | Python3 | Ocrmypdf | Pdftotext

record peye_fields =
  pe_valid_score :: int
  pe_all_checksums_ok :: bool
  pe_type :: string
  pe_country :: string
  pe_number :: string
  pe_date_of_birth :: string
  pe_expiration_date :: string
  pe_nationality :: string
  pe_sex :: string
  pe_names :: string
  pe_surname :: string
  pe_personal_number :: string
  pe_mrz_line1 :: string
  pe_mrz_line2 :: string

datatype peye = PeyeOk peye_fields | PeyeError string
  \<comment> \<open>the two objects that the PassportEye script prints: \<open>{"ok": true, ...}\<close> with the
      fields, and \<open>{"ok": false, "error": ...}\<close>\<close>

record world =
  mkdtemp_run :: "unit outcome"
  writeFile_run :: "unit outcome"
  pdftoppm_run :: "unit outcome"
  tmpDir_files :: "string list"
  passporteye_run :: "peye option outcome"
  ocrmypdf_run :: "unit outcome"
  pdftotext_run :: "unit outcome"
  readFile_first :: "string option"
  readFile_second :: "string option"

text \<open>
  \<open>tmpDir_files\<close> is the content of the work directory after \<open>pdftoppm\<close>;
  \<open>passporteye_run\<close> resolves with the parsed standard output of the script, \<open>None\<close> when
  it is not JSON; \<open>readFile_first\<close> is the read of the text file after \<open>pdftotext\<close>,
  \<open>readFile_second\<close> the read in the \<open>catch\<close> branch, \<open>None\<close> when the read fails.
\<close>

record request =
  req_file :: "nat list option"
  req_debug :: bool

record response =
  status :: nat
  body :: json

datatype failure = ToolFailed string | NoPng | NonJson

definition isPdfBuffer :: "nat list \<Rightarrow> bool" where
  "isPdfBuffer buf = (4 \<le> length buf \<and> take 4 buf = [0x25, 0x50, 0x44, 0x46])"

definition endsWith :: "string \<Rightarrow> string \<Rightarrow> bool" where
  "endsWith s t = suffix t s"

definition findPng :: "string list \<Rightarrow> string option" where
  \<comment> \<open>the first of the three expected names that exists, else any \<open>page*.png\<close>\<close>
  "findPng files =
     (case find (\<lambda>c. c \<in> set files) [''page-1.png'', ''page-01.png'', ''page-001.png''] of
        Some c \<Rightarrow> Some c
      | None \<Rightarrow> find (\<lambda>f. startsWith f ''page'' \<and> endsWith f ''.png'') files)"

definition readMrzWithPassportEye :: "world \<Rightarrow> tool list \<times> (failure + peye)" where
  "readMrzWithPassportEye w =
     (case pdftoppm_run w of
        Rejected e \<Rightarrow> ([Pdftoppm], Inl (ToolFailed e))
      | Resolved u \<Rightarrow>
          (case findPng (tmpDir_files w) of
             None \<Rightarrow> ([Pdftoppm], Inl NoPng)
           | Some imgPath \<Rightarrow>
               (case passporteye_run w of
                  Rejected e \<Rightarrow> ([Pdftoppm, Python3], Inl (ToolFailed e))
                | Resolved None \<Rightarrow> ([Pdftoppm, Python3], Inl NonJson)
                | Resolved (Some p) \<Rightarrow> ([Pdftoppm, Python3], Inr p))))"

definition debugField :: "bool \<Rightarrow> json \<Rightarrow> json" where
  \<comment> \<open>\<open>...(debug && {...})\<close>\<close>
  "debugField dbg extra = (if dbg then extra else [])"

definition msg_missing_file :: string where
  "msg_missing_file = ''Missing field '' @ [CHR 0x27] @ ''file'' @ [CHR 0x27]"

definition msg_not_pdf :: string where
  "msg_not_pdf = ''File does not appear to be a valid PDF''"

definition msg_ocr_failed :: string where
  "msg_ocr_failed = ''PassportEye et Tesseract ont tous les deux '' @ [CHR 0xE9] @ ''chou''
                     @ [CHR 0xE9] @ ''.''"

definition msg_no_card_number :: string where
  "msg_no_card_number = ''Impossible d'' @ [CHR 0x27] @ ''extraire le num'' @ [CHR 0xE9]
                         @ ''ro de carte (PassportEye + Tesseract).''"

definition msg_no_line2 :: string where
  "msg_no_line2 = ''Impossible d'' @ [CHR 0x27] @ ''extraire la 2'' @ [CHR 0xE8]
                   @ ''me ligne MRZ.''"

definition msg_mismatch :: "string \<Rightarrow> string \<Rightarrow> string" where
  "msg_mismatch cardNumber mrzLine2 =
     ''Num'' @ [CHR 0xE9] @ ''ro ('' @ cardNumber @ '') absent de la MRZ ('' @ mrzLine2 @ '').''"

definition parseTesseract :: "string \<Rightarrow> bool \<Rightarrow> response" where
  \<comment> \<open>the part of the handler after the comment \<open>Parse Tesseract\<close>\<close>
  "parseTesseract text dbg =
     (let cardNumber = extractCardNumberFromText text;
          mrzLine2 = extractMrzLine2FromText text
      in if falsy cardNumber then
           \<lparr> status = 422,
             body = [(''valid'', JBool False),
                     (''reason'', JStr ''card_number_not_found''),
                     (''message'', JStr msg_no_card_number),
                     (''method'', JStr ''tesseract_fallback'')]
                    @ debugField dbg [(''raw_text'', JStr text)] \<rparr>
         else if falsy mrzLine2 then
           \<lparr> status = 422,
             body = [(''valid'', JBool False),
                     (''reason'', JStr ''mrz_line2_not_found''),
                     (''message'', JStr msg_no_line2),
                     (''method'', JStr ''tesseract_fallback''),
                     (''card_number'', JStr (the cardNumber))]
                    @ debugField dbg [(''raw_text'', JStr text)] \<rparr>
         else if \<not> str_includes (normalizeMrz (the mrzLine2)) (normalizeMrz (the cardNumber)) then
           \<lparr> status = 422,
             body = [(''valid'', JBool False),
                     (''reason'', JStr ''card_number_mrz_mismatch''),
                     (''message'', JStr (msg_mismatch (the cardNumber) (the mrzLine2))),
                     (''method'', JStr ''tesseract_fallback''),
                     (''card_number'', JStr (the cardNumber)),
                     (''mrz_line2'', JStr (the mrzLine2))]
                    @ debugField dbg [(''raw_text'', JStr text)] \<rparr>
         else
           \<lparr> status = 200,
             body = [(''valid'', JBool True),
                     (''method'', JStr ''tesseract_fallback''),
                     (''card_number'', JStr (the cardNumber)),
                     (''mrz_line2'', JStr (the mrzLine2)),
                     (''all_checksums_ok'', JNull),
                     (''valid_score'', JNull)] \<rparr>)"

definition tesseractText :: "world \<Rightarrow> string" where
  \<comment> \<open>the text after \<open>ocrmypdf\<close> has resolved: the output of \<open>pdftotext\<close>, else the
      sidecar file, else the empty string\<close>
  "tesseractText w =
     (let fallback = (case readFile_second w of None \<Rightarrow> [] | Some t \<Rightarrow> t)
      in case pdftotext_run w of
           Rejected e \<Rightarrow> fallback
         | Resolved u \<Rightarrow> (case readFile_first w of None \<Rightarrow> fallback | Some t \<Rightarrow> t))"

definition primarySuccess :: "peye option \<Rightarrow> peye_fields option" where
  \<comment> \<open>\<open>peyeResult?.ok && peyeResult.number\<close>: the fields when the test is truthy\<close>
  "primarySuccess peyeResult =
     (case peyeResult of
        Some (PeyeOk f) \<Rightarrow> (if pe_number f \<noteq> [] then Some f else None)
      | Some (PeyeError e) \<Rightarrow> None
      | None \<Rightarrow> None)"

definition peyeErrorField :: "peye option \<Rightarrow> json" where
  \<comment> \<open>\<open>passporteye_error: peyeResult?.error\<close>; an undefined value is not serialized\<close>
  "peyeErrorField peyeResult =
     (case peyeResult of
        Some (PeyeError e) \<Rightarrow> [(''passporteye_error'', JStr e)]
      | Some (PeyeOk f) \<Rightarrow> []
      | None \<Rightarrow> [])"

definition tesseractFallback :: "world \<Rightarrow> request \<Rightarrow> peye option \<Rightarrow> tool list \<times> response option" where
  \<comment> \<open>the part of the handler from the comment \<open>Tentative 2 : fallback Tesseract\<close> on\<close>
  "tesseractFallback w req peyeResult =
     (case ocrmypdf_run w of
        Rejected e \<Rightarrow>
          ([Ocrmypdf],
           Some \<lparr> status = 500,
             body = [(''valid'', JBool False),
                     (''reason'', JStr ''ocr_failed''),
                     (''message'', JStr msg_ocr_failed)]
                    @ debugField (req_debug req)
                        (peyeErrorField peyeResult @ [(''tesseract_error'', JStr e)]) \<rparr>)
      | Resolved u \<Rightarrow>
          ([Ocrmypdf, Pdftotext], Some (parseTesseract (tesseractText w) (req_debug req))))"

definition peyeResultOf :: "failure + peye \<Rightarrow> peye option" where
  \<comment> \<open>\<open>peyeResult\<close> after the first \<open>try\<close>: null when the reader has thrown\<close>
  "peyeResultOf r = (case r of Inl e \<Rightarrow> None | Inr p \<Rightarrow> Some p)"

definition verify_id :: "world \<Rightarrow> request \<Rightarrow> tool list \<times> response option" where
  "verify_id w req =
     (case req_file req of
        None \<Rightarrow> ([], Some \<lparr> status = 400, body = [(''error'', JStr msg_missing_file)] \<rparr>)
      | Some buf \<Rightarrow>
          if \<not> isPdfBuffer buf
          then ([], Some \<lparr> status = 415, body = [(''error'', JStr msg_not_pdf)] \<rparr>)
          else
            (case mkdtemp_run w of
               Rejected e \<Rightarrow> ([], None)
             | Resolved u \<Rightarrow>
                 (case writeFile_run w of
                    Rejected e \<Rightarrow> ([], Some \<lparr> status = 500, body = [(''error'', JStr e)] \<rparr>)
                  | Resolved u' \<Rightarrow>
                      (let (tr, r) = readMrzWithPassportEye w;
                           peyeResult = peyeResultOf r
                       in case primarySuccess peyeResult of
                            Some f \<Rightarrow>
                              (tr, Some \<lparr> status = 200,
                                body = [(''valid'', JBool True),
                                        (''method'', JStr ''passporteye''),
                                        (''card_number'', JStr (pe_number f)),
                                        (''mrz_line1'', JStr (pe_mrz_line1 f)),
                                        (''mrz_line2'', JStr (pe_mrz_line2 f)),
                                        (''surname'', JStr (pe_surname f)),
                                        (''names'', JStr (pe_names f)),
                                        (''date_of_birth'', JStr (pe_date_of_birth f)),
                                        (''expiration_date'', JStr (pe_expiration_date f)),
                                        (''nationality'', JStr (pe_nationality f)),
                                        (''sex'', JStr (pe_sex f)),
                                        (''all_checksums_ok'', JBool (pe_all_checksums_ok f)),
                                        (''valid_score'', JNum (pe_valid_score f))] \<rparr>)
                          | None \<Rightarrow>
                              (let (tr2, resp) = tesseractFallback w req peyeResult
                               in (tr @ tr2, resp))))))"

section \<open>Outcome normalizer\<close>


section \<open>Text-engine node (Doctr)\<close>






section \<open>Sample requests\<close>

definition pdf_request :: request where
  "pdf_request = \<lparr> req_file = Some [0x25, 0x50, 0x44, 0x46, 0x2D], req_debug = False \<rparr>"

definition sample_fields :: peye_fields where
  "sample_fields = \<lparr> pe_valid_score = 100, pe_all_checksums_ok = True, pe_type = ''ID'',
     pe_country = ''FRA'', pe_number = ''X4RTBPFW4'', pe_date_of_birth = ''900713'',
     pe_expiration_date = ''300211'', pe_nationality = ''FRA'', pe_sex = ''M'',
     pe_names = ''MAELYS GAELLE MARIE'', pe_surname = ''MARTIN'', pe_personal_number = [],
     pe_mrz_line1 = ''IDFRAX4RTBPFW46<<<<<<<<<<<<<<<'',
     pe_mrz_line2 = ''9007138M3002119FRA<<<<<<<<<<<6'' \<rparr>"

definition sample_world :: "peye option outcome \<Rightarrow> string \<Rightarrow> world" where
  \<comment> \<open>every tool resolves; the primary engine answers \<open>p\<close>, the text extracted by the
      secondary engine is \<open>t\<close>\<close>
  "sample_world p t =
     \<lparr> mkdtemp_run = Resolved (), writeFile_run = Resolved (), pdftoppm_run = Resolved (),
       tmpDir_files = [''input.pdf'', ''page-1.png''], passporteye_run = p,
       ocrmypdf_run = Resolved (), pdftotext_run = Resolved (),
       readFile_first = Some t, readFile_second = None \<rparr>"

definition text_no_number :: string where
  "text_no_number = ''REPUBLIQUE FRANCAISE''"

definition text_no_line2 :: string where
  "text_no_line2 = ''Carte N'' @ [CHR 0xB0] @ '' : 190238151174''"

definition text_mismatch :: string where
  "text_mismatch = ''Carte N'' @ [CHR 0xB0] @ '' : 190238151175'' @ [CHR 0x0A]
                   @ ''190238151174 9304301 M 3306275 FRA<<<<<<<<<<<0''"

definition text_verified :: string where
  "text_verified = ''Carte N'' @ [CHR 0xB0] @ '' : 190238151174'' @ [CHR 0x0A]
                   @ ''190238151174 9304301 M 3306275 FRA<<<<<<<<<<<0''"





section \<open>Properties\<close>

subsection \<open>Characters and numbers\<close>

lemma code_eq_iff: "(code a = code b) = (a = b)"
  by (simp add: code_def)

lemma code_less: "code c < 256"
  by (simp add: code_def)

lemma char_of_code: "char_of (code c) = c"
  by (simp add: code_def)

lemma code_char_of: "n < 256 \<Longrightarrow> code (char_of n) = n"
  by (simp add: code_def)

lemma digit_not_special:
  assumes "isDigit c"
  shows "\<not> isSpace c" "c \<noteq> CHR ''-''" "c \<noteq> CHR ''+''" "c \<noteq> CHR ''<''" "\<not> isUpper c"
  using assms by (auto simp: isDigit_def isSpace_def isUpper_def code_def)

lemma parseInt_single: "parseInt [k] = (if isDigit k then Some (digitVal k) else None)"
proof (cases "isDigit k")
  case True
  then show ?thesis
    using digit_not_special [OF True] by (simp add: parseInt_def)
next
  case False
  then show ?thesis by (simp add: parseInt_def Let_def)
qed

lemma indexOf_range:
  "b \<le> 256 \<Longrightarrow> indexOf (map char_of [a..<b]) c
     = (if a \<le> code c \<and> code c < b then int (code c - a) else - 1)"
proof (induction "b - a" arbitrary: a)
  case 0
  then show ?case by simp
next
  case (Suc n)
  then have lt: "a < b" and n: "n = b - Suc a" by simp_all
  have "[a..<b] = a # [Suc a..<b]" using lt by (simp add: upt_rec)
  moreover have "(char_of a = c) = (a = code c)"
    using lt Suc.prems code_char_of [of a] char_of_code [of c] by auto
  ultimately show ?case
    using Suc.hyps(1) [OF n Suc.prems] lt by (auto simp: Let_def)
qed

lemma indexOf_neg: "indexOf xs c < 0 \<Longrightarrow> indexOf xs c = - 1"
  by (induction xs) (auto simp: Let_def split: if_splits)

lemma indexOf_append:
  "indexOf (xs @ ys) c = (if 0 \<le> indexOf xs c then indexOf xs c
                          else if 0 \<le> indexOf ys c then int (length xs) + indexOf ys c else - 1)"
  using indexOf_neg [of ys c] by (induction xs) (auto simp: Let_def)


lemma table_ranges: "table = map char_of [48..<58] @ map char_of [65..<91]"
  by code_simp

lemma indexOf_digits:
  "indexOf (map char_of [48..<58]) c = (if isDigit c then digitVal c else - 1)"
proof -
  have "indexOf (map char_of [48..<58]) c
        = (if 48 \<le> code c \<and> code c < 58 then int (code c - 48) else - 1)"
    by (rule indexOf_range) simp
  also have "\<dots> = (if isDigit c then digitVal c else - 1)"
    by (auto simp: isDigit_def digitVal_def)
  finally show ?thesis .
qed

lemma indexOf_uppers:
  "indexOf (map char_of [65..<91]) c = (if isUpper c then int (code c) - 65 else - 1)"
proof -
  have "indexOf (map char_of [65..<91]) c
        = (if 65 \<le> code c \<and> code c < 91 then int (code c - 65) else - 1)"
    by (rule indexOf_range) simp
  also have "\<dots> = (if isUpper c then int (code c) - 65 else - 1)"
    by (auto simp: isUpper_def)
  finally show ?thesis .
qed

lemma indexOf_table:
  "indexOf table c = (if isDigit c then digitVal c else if isUpper c then 10 + (int (code c) - 65) else - 1)"
proof -
  have "0 \<le> digitVal c" if "isDigit c"
    using that by (simp add: isDigit_def digitVal_def)
  moreover have "0 \<le> int (code c) - 65" if "isUpper c"
    using that by (simp add: isUpper_def)
  moreover have "length (map char_of [48..<58]) = 10" by simp
  ultimately show ?thesis
    unfolding table_ranges indexOf_append indexOf_digits indexOf_uppers
    by (simp only: digit_not_special split: if_splits) auto
qed


lemma charVal_icao: "charVal c = Some (icao_value c)"
proof (cases "isDigit c")
  case True
  then have "0 \<le> digitVal c" by (simp add: isDigit_def digitVal_def)
  then show ?thesis
    using True digit_not_special [OF True]
    by (simp add: charVal_def icao_value_def parseInt_single num_lt_def)
next
  case False
  then show ?thesis
    by (simp add: charVal_def icao_value_def indexOf_table num_lt_def isUpper_def)
qed

lemma weights_icao: "weights ! (i mod 3) = icao_weight i"
proof -
  have "i mod 3 = 0 \<or> i mod 3 = 1 \<or> i mod 3 = 2" by arith
  then show ?thesis by (auto simp: weights_def icao_weight_def)
qed

lemma icao_value_nonneg: "0 \<le> icao_value c"
  by (simp add: icao_value_def digitVal_def isDigit_def isUpper_def)

lemma icao_weight_pos: "0 < icao_weight i"
  by (simp add: icao_weight_def)

lemma mrzChecksum_loop_sum:
  "mrzChecksum_loop s i (Some t) = Some (t + (\<Sum>j = i..<length s. icao_value (s ! j) * icao_weight j))"
proof (induction s i "Some t :: jsnum" arbitrary: t rule: mrzChecksum_loop.induct)
  case (1 str i)
  show ?case
  proof (cases "i < length str")
    case True
    have step: "num_add (Some t) (num_mul (charVal (str ! i)) (Some (weights ! (i mod 3))))
                = Some (t + icao_value (str ! i) * icao_weight i)"
      by (simp add: num_add_def num_mul_def charVal_icao weights_icao)
    have "mrzChecksum_loop str i (Some t)
          = mrzChecksum_loop str (Suc i) (Some (t + icao_value (str ! i) * icao_weight i))"
      using True step by (subst mrzChecksum_loop.simps) simp
    also have "\<dots> = Some (t + icao_value (str ! i) * icao_weight i
                           + (\<Sum>j = Suc i..<length str. icao_value (str ! j) * icao_weight j))"
      using "1.hyps"[OF True step] .
    also have "\<dots> = Some (t + (\<Sum>j = i..<length str. icao_value (str ! j) * icao_weight j))"
      using True by (simp add: sum.atLeast_Suc_lessThan)
    finally show ?thesis .
  next
    case False
    then show ?thesis by (subst mrzChecksum_loop.simps) simp
  qed
qed

lemma icao_sum_nonneg: "0 \<le> (\<Sum>i < length s. icao_value (s ! i) * icao_weight i)"
  by (rule sum_nonneg) (simp add: icao_value_nonneg less_imp_le [OF icao_weight_pos])

lemma mrzChecksum_eq: "mrzChecksum s = Some (icao_checksum s)"
proof -
  let ?S = "\<Sum>i < length s. icao_value (s ! i) * icao_weight i"
  have "mrzChecksum_loop s 0 (Some 0) = Some (0 + (\<Sum>j = 0..<length s. icao_value (s ! j) * icao_weight j))"
    by (rule mrzChecksum_loop_sum)
  also have "{0..<length s} = {..<length s}" by (rule atLeast0LessThan)
  finally have "mrzChecksum_loop s 0 (Some 0) = Some ?S" by simp
  then have "mrzChecksum s = Some (?S mod 10)"
    using icao_sum_nonneg [of s] by (simp only: mrzChecksum_def num_rem_def option.case if_True)
  then show ?thesis by (simp only: icao_checksum_def)
qed

lemma checksumOk_single:
  "checksumOk d [k] = (isDigit k \<and> mrzChecksum d = Some (digitVal k))"
  by (cases "isDigit k") (simp_all add: checksumOk_def parseInt_single num_eq_def mrzChecksum_eq)

lemma icao_checksum_range: "0 \<le> icao_checksum s \<and> icao_checksum s \<le> 9"
  by (simp add: icao_checksum_def)


lemma natDigits_small: "n < 10 \<Longrightarrow> natDigits n = [char_of (48 + n)]"
  by (subst natDigits.simps) simp

lemma natDigits_two:
  assumes "x < 10" "y < 10"
  shows "padStart (natDigits (10 * x + y)) 2 CHR ''0'' = [char_of (48 + x), char_of (48 + y)]"
proof (cases "x = 0")
  case True
  have "char_of (48::nat) = CHR ''0''" by code_simp
  then show ?thesis
    using True assms by (simp add: natDigits_small padStart_def)
next
  case False
  then have "\<not> 10 * x + y < 10" by simp
  moreover have "(10 * x + y) div 10 = x" "(10 * x + y) mod 10 = y"
    using assms by simp_all
  ultimately have "natDigits (10 * x + y) = natDigits x @ [char_of (48 + y)]"
    by (subst natDigits.simps) simp
  then show ?thesis
    using assms by (simp add: natDigits_small padStart_def)
qed

lemma digit_char: "isDigit a \<Longrightarrow> char_of (48 + nat (digitVal a)) = a"
proof -
  assume "isDigit a"
  then have "48 + nat (digitVal a) = code a"
    unfolding isDigit_def digitVal_def by arith
  then show ?thesis by (simp add: char_of_code)
qed

lemma two_digits:
  assumes "isDigit a" "isDigit b"
  shows "parseInt [a, b] = Some (10 * digitVal a + digitVal b)"
    and "padStart (String (parseInt [a, b])) 2 CHR ''0'' = [a, b]"
proof -
  show p: "parseInt [a, b] = Some (10 * digitVal a + digitVal b)"
    using assms digit_not_special [OF assms(1)] by (simp add: parseInt_def)
  have ra: "0 \<le> digitVal a" "nat (digitVal a) < 10" and rb: "0 \<le> digitVal b" "nat (digitVal b) < 10"
    using assms unfolding isDigit_def digitVal_def by arith+
  have "nat (10 * digitVal a + digitVal b) = 10 * nat (digitVal a) + nat (digitVal b)"
    using ra rb by simp
  then have "String (parseInt [a, b]) = natDigits (10 * nat (digitVal a) + nat (digitVal b))"
    using ra rb by (simp add: p String_def)
  then show "padStart (String (parseInt [a, b])) 2 CHR ''0'' = [a, b]"
    using natDigits_two [OF ra(2) rb(2)] digit_char assms by simp
qed

lemma parseMrzDate_digits:
  assumes "length s = 6" and "list_all isDigit s"
  shows "parseMrzDate s =
           Some ((if 30 < digitsValue 0 (slice s 0 2) then ''19'' else ''20'')
                 @ slice s 0 2 @ ''-'' @ slice s 2 4 @ ''-'' @ slice s 4 6)"
proof -
  obtain a b r where s: "s = a # b # r" and r: "length r = 4"
    using assms(1) by (cases s; cases "tl s") auto
  have ab: "isDigit a" "isDigit b" using assms(2) s by simp_all
  have sl: "slice s 0 2 = [a, b]" by (simp add: s slice_def)
  have dv: "digitsValue 0 [a, b] = 10 * digitVal a + digitVal b" by simp
  have "s \<noteq> []" using s by simp
  then show ?thesis
    unfolding parseMrzDate_def Let_def sl dv
    using assms(1) two_digits [OF ab] by (simp add: num_lt_def)
qed


subsection \<open>Checksum engine\<close>

text \<open>
  C1: for every string, \<open>mrzChecksum\<close> is the reference ICAO 7-3-1 modulo-10
  computation; a character outside A-Z, 0-9 and the filler contributes the value 0; and
  \<open>checksumOk\<close> on a single check character is true exactly when that character is a
  decimal digit whose value is the computed check digit.
\<close>

theorem mrzChecksum_reference:
  "mrzChecksum s = Some (icao_checksum s)
   \<and> charVal c = Some (if isDigit c \<or> isUpper c \<or> c = CHR ''<'' then icao_value c else 0)
   \<and> checksumOk d [k] = (isDigit k \<and> mrzChecksum d = Some (digitVal k))"
proof -
  have "icao_value c = 0" if "\<not> (isDigit c \<or> isUpper c \<or> c = CHR ''<'')"
    using that by (simp add: icao_value_def)
  then have "charVal c = Some (if isDigit c \<or> isUpper c \<or> c = CHR ''<'' then icao_value c else 0)"
    by (simp add: charVal_icao)
  then show ?thesis
    using mrzChecksum_eq [of s] checksumOk_single [of d k] by blast
qed

text \<open>
  C10: \<open>mrzChecksum\<close> returns, for every string, an integer between 0 and 9 (never
  NaN), and \<open>checksumOk\<close> is false for every data string when the check character is not
  a decimal digit.
\<close>

theorem mrzChecksum_total:
  "(\<exists>r. mrzChecksum s = Some r \<and> 0 \<le> r \<and> r \<le> 9)
   \<and> (\<not> isDigit k \<longrightarrow> \<not> checksumOk d [k])"
  using icao_checksum_range [of s] by (simp add: mrzChecksum_eq checksumOk_single)

theorem mrzChecksum_total_witness:
  "\<not> isDigit CHR ''<'' \<and> \<not> checksumOk ''930430'' ''<''
   \<and> \<not> isDigit CHR ''A'' \<and> \<not> checksumOk ''930430'' ''A''"
  using mrzChecksum_total [of "''930430''" "CHR ''<''" "''930430''"]
        mrzChecksum_total [of "''930430''" "CHR ''A''" "''930430''"]
  by (simp add: isDigit_def code_def)

subsection \<open>Dates\<close>

text \<open>
  C6: for every string of six decimal digits, \<open>parseMrzDate\<close> puts a two-digit year
  greater than 30 in the 1900s and any other in the 2000s; the year digits 05 give 2005,
  95 give 1995, 30 give 2030 and 31 give 1931.
\<close>

theorem parseMrzDate_century:
  assumes "length s = 6" and "list_all isDigit s"
  shows "parseMrzDate s =
           Some ((if 30 < digitsValue 0 (slice s 0 2) then ''19'' else ''20'')
                 @ slice s 0 2 @ ''-'' @ slice s 2 4 @ ''-'' @ slice s 4 6)
         \<and> (slice s 0 2 = ''05'' \<longrightarrow> parseMrzDate s = Some (''2005-'' @ slice s 2 4 @ ''-'' @ slice s 4 6))
         \<and> (slice s 0 2 = ''95'' \<longrightarrow> parseMrzDate s = Some (''1995-'' @ slice s 2 4 @ ''-'' @ slice s 4 6))
         \<and> (slice s 0 2 = ''30'' \<longrightarrow> parseMrzDate s = Some (''2030-'' @ slice s 2 4 @ ''-'' @ slice s 4 6))
         \<and> (slice s 0 2 = ''31'' \<longrightarrow> parseMrzDate s = Some (''1931-'' @ slice s 2 4 @ ''-'' @ slice s 4 6))"
proof -
  let ?rest = "''-'' @ slice s 2 4 @ ''-'' @ slice s 4 6"
  have g: "parseMrzDate s =
             Some ((if 30 < digitsValue 0 (slice s 0 2) then ''19'' else ''20'') @ slice s 0 2 @ ?rest)"
    by (rule parseMrzDate_digits [OF assms])
  have "parseMrzDate s = Some (''2005'' @ ?rest)" if "slice s 0 2 = ''05''"
    using g unfolding that by (simp add: digitVal_def code_def)
  moreover have "parseMrzDate s = Some (''1995'' @ ?rest)" if "slice s 0 2 = ''95''"
    using g unfolding that by (simp add: digitVal_def code_def)
  moreover have "parseMrzDate s = Some (''2030'' @ ?rest)" if "slice s 0 2 = ''30''"
    using g unfolding that by (simp add: digitVal_def code_def)
  moreover have "parseMrzDate s = Some (''1931'' @ ?rest)" if "slice s 0 2 = ''31''"
    using g unfolding that by (simp add: digitVal_def code_def)
  ultimately show ?thesis using g by simp
qed

theorem parseMrzDate_century_witness:
  "length ''050101'' = 6 \<and> list_all isDigit ''050101''
   \<and> parseMrzDate ''050101'' = Some ''2005-01-01''
   \<and> parseMrzDate ''951231'' = Some ''1995-12-31''
   \<and> parseMrzDate ''300615'' = Some ''2030-06-15''
   \<and> parseMrzDate ''310615'' = Some ''1931-06-15''"
proof -
  have h: "length ''050101'' = 6" "list_all isDigit ''050101''"
          "length ''951231'' = 6" "list_all isDigit ''951231''"
          "length ''300615'' = 6" "list_all isDigit ''300615''"
          "length ''310615'' = 6" "list_all isDigit ''310615''"
    by (simp_all add: isDigit_def code_def)
  show ?thesis
    using h parseMrzDate_century [OF h(1,2)] parseMrzDate_century [OF h(3,4)]
          parseMrzDate_century [OF h(5,6)] parseMrzDate_century [OF h(7,8)]
    by (simp add: slice_def digitVal_def code_def)
qed

subsection \<open>MRZ grammar parser\<close>

lemma length_pad30: "length (pad30 l) = 30"
  by (simp add: pad30_def padEnd_def slice_def)

lemma pad30_eq: "pad30 l = take 30 l @ replicate (30 - length l) CHR ''<''"
  by (simp add: pad30_def padEnd_def slice_def min_def)

lemma parseMrzTD1_loop_Some:
  "parseMrzTD1_loop cands i = Some r \<Longrightarrow>
     \<exists>j. i \<le> j \<and> j + 3 \<le> length cands
         \<and> startsWith (pad30 (cands ! j)) ''ID''
         \<and> (\<forall>k. i \<le> k \<and> k < j \<longrightarrow> \<not> startsWith (pad30 (cands ! k)) ''ID'')
         \<and> r = decodeTD1 (pad30 (cands ! j)) (pad30 (cands ! (j + 1))) (pad30 (cands ! (j + 2)))"
proof (induction cands i rule: parseMrzTD1_loop.induct)
  case (1 cands i)
  from "1.prems" have bound: "i + 3 \<le> length cands"
    by (subst (asm) parseMrzTD1_loop.simps) (simp split: if_splits)
  show ?case
  proof (cases "startsWith (pad30 (cands ! i)) ''ID''")
    case True
    with "1.prems" bound
    have "r = decodeTD1 (pad30 (cands ! i)) (pad30 (cands ! (i + 1))) (pad30 (cands ! (i + 2)))"
      by (subst (asm) parseMrzTD1_loop.simps) (simp add: Let_def)
    with True bound show ?thesis
      by (intro exI [of _ i]) auto
  next
    case False
    with "1.prems" bound have rec: "parseMrzTD1_loop cands (Suc i) = Some r"
      by (subst (asm) parseMrzTD1_loop.simps) (simp add: Let_def)
    from "1.IH" [OF bound refl refl refl False rec]
    obtain j where j: "Suc i \<le> j" "j + 3 \<le> length cands"
        "startsWith (pad30 (cands ! j)) ''ID''"
        "\<forall>k. Suc i \<le> k \<and> k < j \<longrightarrow> \<not> startsWith (pad30 (cands ! k)) ''ID''"
        "r = decodeTD1 (pad30 (cands ! j)) (pad30 (cands ! (j + 1))) (pad30 (cands ! (j + 2)))"
      by blast
    have "\<not> startsWith (pad30 (cands ! k)) ''ID''" if "i \<le> k" "k < j" for k
    proof (cases "k = i")
      case True
      then show ?thesis using False by simp
    next
      case False
      then show ?thesis using that j(4) by (simp add: Suc_le_eq)
    qed
    with j show ?thesis
      by (intro exI [of _ j]) auto
  qed
qed

lemma parseMrzTD1_loop_first:
  assumes "i \<le> j" "j + 3 \<le> length cands" "startsWith (pad30 (cands ! j)) ''ID''"
    and "\<forall>k. i \<le> k \<and> k < j \<longrightarrow> \<not> startsWith (pad30 (cands ! k)) ''ID''"
  shows "parseMrzTD1_loop cands i
           = Some (decodeTD1 (pad30 (cands ! j)) (pad30 (cands ! (j + 1))) (pad30 (cands ! (j + 2))))"
  using assms
proof (induction "j - i" arbitrary: i)
  case 0
  then have "i = j" by simp
  with 0 show ?case
    by (subst parseMrzTD1_loop.simps) (simp add: Let_def)
next
  case (Suc n)
  then have lt: "i < j" and n: "n = j - Suc i" by simp_all
  have no: "\<not> startsWith (pad30 (cands ! i)) ''ID''"
    using Suc.prems(4) lt by simp
  have rest: "\<forall>k. Suc i \<le> k \<and> k < j \<longrightarrow> \<not> startsWith (pad30 (cands ! k)) ''ID''"
    using Suc.prems(4) by simp
  have "parseMrzTD1_loop cands i = parseMrzTD1_loop cands (Suc i)"
    using no lt Suc.prems(2) by (subst parseMrzTD1_loop.simps) (simp add: Let_def)
  also have "\<dots> = Some (decodeTD1 (pad30 (cands ! j)) (pad30 (cands ! (j + 1))) (pad30 (cands ! (j + 2))))"
    using Suc.hyps(1) [OF n _ Suc.prems(2,3) rest] lt by simp
  finally show ?case .
qed

lemma parseMrzTD1_loop_None:
  "(parseMrzTD1_loop cands i = None)
     = (\<forall>j. i \<le> j \<and> j + 3 \<le> length cands \<longrightarrow> \<not> startsWith (pad30 (cands ! j)) ''ID'')"
proof
  assume none: "parseMrzTD1_loop cands i = None"
  show "\<forall>j. i \<le> j \<and> j + 3 \<le> length cands \<longrightarrow> \<not> startsWith (pad30 (cands ! j)) ''ID''"
  proof (rule ccontr)
    assume "\<not> ?thesis"
    then have ex: "\<exists>j. i \<le> j \<and> j + 3 \<le> length cands \<and> startsWith (pad30 (cands ! j)) ''ID''"
      by blast
    define j where "j = (LEAST j. i \<le> j \<and> j + 3 \<le> length cands \<and> startsWith (pad30 (cands ! j)) ''ID'')"
    have j: "i \<le> j \<and> j + 3 \<le> length cands \<and> startsWith (pad30 (cands ! j)) ''ID''"
      unfolding j_def using ex by (rule LeastI_ex)
    have "\<not> startsWith (pad30 (cands ! k)) ''ID''" if "i \<le> k" "k < j" for k
    proof
      assume "startsWith (pad30 (cands ! k)) ''ID''"
      with that j have "i \<le> k \<and> k + 3 \<le> length cands \<and> startsWith (pad30 (cands ! k)) ''ID''"
        by simp
      then have "j \<le> k" unfolding j_def by (rule Least_le)
      with that show False by simp
    qed
    then have "parseMrzTD1_loop cands i \<noteq> None"
      using parseMrzTD1_loop_first [of i j cands] j by simp
    with none show False by simp
  qed
next
  assume all: "\<forall>j. i \<le> j \<and> j + 3 \<le> length cands \<longrightarrow> \<not> startsWith (pad30 (cands ! j)) ''ID''"
  show "parseMrzTD1_loop cands i = None"
  proof (cases "parseMrzTD1_loop cands i")
    case None
    then show ?thesis .
  next
    case (Some r)
    from parseMrzTD1_loop_Some [OF Some] all show ?thesis by blast
  qed
qed

lemma split_nonempty: "split c s \<noteq> []"
  by (induction s) (auto split: list.splits)

lemma split_two: "c \<in> set s \<Longrightarrow> 2 \<le> length (split c s)"
proof (induction s)
  case Nil
  then show ?case by simp
next
  case (Cons x xs)
  show ?case
  proof (cases "x = c")
    case True
    with split_nonempty [of c xs] show ?thesis
      by (cases "split c xs") simp_all
  next
    case False
    with Cons show ?thesis
      by (cases "split c xs") simp_all
  qed
qed

lemma charAt_nth: "i < length s \<Longrightarrow> charAt s i = [s ! i]"
  by (simp add: charAt_def take_Suc_conv_app_nth)

lemma decodeTD1_lines:
  "mrz_line1 (decodeTD1 l1 l2 l3) = l1" "mrz_line2 (decodeTD1 l1 l2 l3) = l2"
  "mrz_line3 (decodeTD1 l1 l2 l3) = l3"
  by (simp_all add: decodeTD1_def Let_def)

lemma decodeTD1_fields:
  assumes "length l2 = 30"
  shows "card_number (decodeTD1 l1 l2 l3) = stripFillers (slice l1 5 14)"
    "nationality (decodeTD1 l1 l2 l3) = stripFillers (slice l1 2 5)"
    "date_of_birth (decodeTD1 l1 l2 l3) = parseMrzDate (slice l2 0 6)"
    "expiration_date (decodeTD1 l1 l2 l3) = parseMrzDate (slice l2 8 14)"
    "sex (decodeTD1 l1 l2 l3)
       = (if l2 ! 7 = CHR ''M'' then ''M'' else if l2 ! 7 = CHR ''F'' then ''F'' else ''X'')"
    "ck_date_of_birth (checksums (decodeTD1 l1 l2 l3)) = checksumOk (slice l2 0 6) [l2 ! 6]"
    "ck_expiration_date (checksums (decodeTD1 l1 l2 l3)) = checksumOk (slice l2 8 14) [l2 ! 14]"
    "ck_composite (checksums (decodeTD1 l1 l2 l3))
       = checksumOk (slice l1 5 30 @ slice l2 0 7 @ slice l2 8 15 @ slice l2 18 29) [l2 ! 29]"
  using assms by (simp_all add: decodeTD1_def Let_def charAt_nth)

lemma td1_sample_parse:
  "parseMrzTD1 td1_sample = Some
     \<lparr> mrz_line1 = ''IDFRAX4RTBPFW46<<<<<<<<<<<<<<<'',
       mrz_line2 = ''9007138M3002119FRA<<<<<<<<<<<6'',
       mrz_line3 = ''MARTIN<<MAELYS<GAELLE<MARIE<<<'',
       card_number = ''X4RTBPFW4'', nationality = ''FRA'',
       date_of_birth = Some ''1990-07-13'',
       expiration_date = Some ''2030-02-11'', sex = ''M'',
       surname = ''MARTIN  MAELYS GAELLE MARIE'', names = [],
       checksums = \<lparr> ck_date_of_birth = True, ck_expiration_date = True,
                     ck_composite = True, ck_all_ok = True \<rparr> \<rparr>"
  by code_simp

text \<open>
  C9: in every result of the parser the three lines have exactly 30 characters: they are
  three consecutive candidate lines, each cut to 30 characters and padded with the filler,
  and the card number, the nationality, the two dates, the sex code and the date check
  results are computed from fixed slices of these lines, every slice lying inside its line;
  the whole result is the decoding of these three lines.
\<close>

theorem parseMrzTD1_lines_30:
  assumes "parseMrzTD1 rawText = Some r"
  shows "length (mrz_line1 r) = 30 \<and> length (mrz_line2 r) = 30 \<and> length (mrz_line3 r) = 30
    \<and> (\<exists>i. i + 3 \<le> length (candidates rawText)
          \<and> mrz_line1 r = take 30 (candidates rawText ! i)
                           @ replicate (30 - length (candidates rawText ! i)) CHR ''<''
          \<and> mrz_line2 r = take 30 (candidates rawText ! (i + 1))
                           @ replicate (30 - length (candidates rawText ! (i + 1))) CHR ''<''
          \<and> mrz_line3 r = take 30 (candidates rawText ! (i + 2))
                           @ replicate (30 - length (candidates rawText ! (i + 2))) CHR ''<'')
    \<and> card_number r = stripFillers (slice (mrz_line1 r) 5 14)
    \<and> length (slice (mrz_line1 r) 5 14) = 9
    \<and> nationality r = stripFillers (slice (mrz_line1 r) 2 5)
    \<and> length (slice (mrz_line1 r) 2 5) = 3
    \<and> date_of_birth r = parseMrzDate (slice (mrz_line2 r) 0 6)
    \<and> length (slice (mrz_line2 r) 0 6) = 6
    \<and> expiration_date r = parseMrzDate (slice (mrz_line2 r) 8 14)
    \<and> length (slice (mrz_line2 r) 8 14) = 6
    \<and> sex r = (if mrz_line2 r ! 7 = CHR ''M'' then ''M''
               else if mrz_line2 r ! 7 = CHR ''F'' then ''F'' else ''X'')
    \<and> ck_date_of_birth (checksums r) = checksumOk (slice (mrz_line2 r) 0 6) [mrz_line2 r ! 6]
    \<and> ck_expiration_date (checksums r) = checksumOk (slice (mrz_line2 r) 8 14) [mrz_line2 r ! 14]
    \<and> r = decodeTD1 (mrz_line1 r) (mrz_line2 r) (mrz_line3 r)"
proof -
  from assms obtain j where j: "j + 3 \<le> length (candidates rawText)"
    and r: "r = decodeTD1 (pad30 (candidates rawText ! j)) (pad30 (candidates rawText ! (j + 1)))
                  (pad30 (candidates rawText ! (j + 2)))"
    unfolding parseMrzTD1_def by (blast dest: parseMrzTD1_loop_Some)
  define l1 where "l1 = pad30 (candidates rawText ! j)"
  define l2 where "l2 = pad30 (candidates rawText ! (j + 1))"
  define l3 where "l3 = pad30 (candidates rawText ! (j + 2))"
  have r': "r = decodeTD1 l1 l2 l3"
    by (simp only: r l1_def l2_def l3_def)
  have len: "length l1 = 30" "length l2 = 30" "length l3 = 30"
    by (simp_all only: l1_def l2_def l3_def length_pad30)
  have lines: "mrz_line1 r = l1" "mrz_line2 r = l2" "mrz_line3 r = l3"
    by (simp_all only: r' decodeTD1_lines)
  note fields = decodeTD1_fields(1-7) [OF len(2), of l1 l3, folded r']
  have widths: "length (slice l1 5 14) = 9" "length (slice l1 2 5) = 3"
    "length (slice l2 0 6) = 6" "length (slice l2 8 14) = 6"
    using len by (simp_all add: slice_def)
  have ex: "\<exists>i. i + 3 \<le> length (candidates rawText)
          \<and> l1 = take 30 (candidates rawText ! i)
                           @ replicate (30 - length (candidates rawText ! i)) CHR ''<''
          \<and> l2 = take 30 (candidates rawText ! (i + 1))
                           @ replicate (30 - length (candidates rawText ! (i + 1))) CHR ''<''
          \<and> l3 = take 30 (candidates rawText ! (i + 2))
                           @ replicate (30 - length (candidates rawText ! (i + 2))) CHR ''<''"
    using j unfolding l1_def l2_def l3_def pad30_eq by blast
  show ?thesis
    unfolding lines using len fields widths ex r' by (simp only: simp_thms)
qed

theorem parseMrzTD1_lines_30_witness:
  "parseMrzTD1 td1_sample \<noteq> None
   \<and> length (mrz_line1 (the (parseMrzTD1 td1_sample))) = 30
   \<and> length (mrz_line2 (the (parseMrzTD1 td1_sample))) = 30
   \<and> length (mrz_line3 (the (parseMrzTD1 td1_sample))) = 30
   \<and> card_number (the (parseMrzTD1 td1_sample)) = ''X4RTBPFW4''"
  using parseMrzTD1_lines_30 [OF td1_sample_parse]
  by (simp add: td1_sample_parse slice_def stripFillers_def)

text \<open>
  C5, as amended: the composite check digit, the character at position 29 of line 2, is
  verified against line 1 [5:30], then line 2 [0:7], then line 2 [8:15], then line 2
  [18:29], in this order.
\<close>

theorem composite_check_order:
  assumes "parseMrzTD1 rawText = Some r"
  shows "ck_composite (checksums r)
           = checksumOk (slice (mrz_line1 r) 5 30 @ slice (mrz_line2 r) 0 7
                         @ slice (mrz_line2 r) 8 15 @ slice (mrz_line2 r) 18 29)
                        [mrz_line2 r ! 29]"
proof -
  from assms obtain j where
    r: "r = decodeTD1 (pad30 (candidates rawText ! j)) (pad30 (candidates rawText ! (j + 1)))
                  (pad30 (candidates rawText ! (j + 2)))"
    unfolding parseMrzTD1_def by (blast dest: parseMrzTD1_loop_Some)
  have len: "length (pad30 (candidates rawText ! (j + 1))) = 30"
    by (rule length_pad30)
  show ?thesis
    unfolding r decodeTD1_lines by (rule decodeTD1_fields(8) [OF len])
qed

theorem composite_check_order_witness:
  "parseMrzTD1 td1_sample \<noteq> None
   \<and> checksumOk (''X4RTBPFW46<<<<<<<<<<<<<<<'' @ ''9007138'' @ ''3002119'' @ ''<<<<<<<<<<<'') ''6''"
  using composite_check_order [OF td1_sample_parse]
  by (simp add: td1_sample_parse slice_def)

text \<open>
  The order of C5 as the claim words it (line 2 [18:29] first) is not the one the parser
  uses: on the sample zone the parser's composite check succeeds, the check over the
  claimed order fails.
\<close>

theorem composite_order_counterexample:
  "map_option (ck_composite \<circ> checksums) (parseMrzTD1 td1_sample) = Some True
   \<and> map_option compositeOk_spec (parseMrzTD1 td1_sample) = Some False"
proof -
  have "\<not> checksumOk (''<<<<<<<<<<<'' @ ''X4RTBPFW46<<<<<<<<<<<<<<<'' @ ''9007138'' @ ''3002119'') ''6''"
    by code_simp
  then show ?thesis
    by (simp add: td1_sample_parse compositeOk_spec_def slice_def charAt_def)
qed

text \<open>
  C4 at the failing input: the first line starts with the document marker followed by
  digits, not by a three-letter country code, and the parser accepts the triplet.
\<close>

theorem parseMrzTD1_marker_only:
  "map_option mrz_line1 (parseMrzTD1 td1_no_country) = Some ''ID1234567890123456789012345678''
   \<and> map_option nationality (parseMrzTD1 td1_no_country) = Some ''123''"
  by code_simp

subsection \<open>Regular expressions\<close>


lemma try_counts_Some:
  "try_counts k prev s lo n = Some r \<Longrightarrow>
     \<exists>m segs. lo \<le> m \<and> m \<le> n \<and> k (prevAfter prev s m) (drop m s) = Some segs
               \<and> r = take m s # segs"
proof (induction n)
  case 0
  then show ?case
    by (auto simp: prevAfter_def split: if_splits option.splits)
next
  case (Suc n)
  show ?case
  proof (cases "k (Some (s ! n)) (drop (Suc n) s)")
    case None
    with Suc.prems have "try_counts k prev s lo n = Some r"
      by (simp split: if_splits)
    from Suc.IH [OF this] obtain m segs where
      "lo \<le> m" "m \<le> n" "k (prevAfter prev s m) (drop m s) = Some segs" "r = take m s # segs"
      by blast
    then show ?thesis
      by (intro exI [of _ m] exI [of _ segs]) simp
  next
    case (Some segs)
    with Suc.prems have "lo \<le> Suc n" "r = take (Suc n) s # segs"
      by (simp_all split: if_splits)
    with Some show ?thesis
      by (intro exI [of _ "Suc n"] exI [of _ segs]) (simp add: prevAfter_def)
  qed
qed

lemma try_counts_None:
  "try_counts k prev s lo n = None \<Longrightarrow> lo \<le> m \<Longrightarrow> m \<le> n \<Longrightarrow>
     k (prevAfter prev s m) (drop m s) = None"
proof (induction n)
  case 0
  then show ?case
    by (auto simp: prevAfter_def split: if_splits option.splits)
next
  case (Suc n)
  show ?case
  proof (cases "m = Suc n")
    case True
    with Suc.prems show ?thesis
      by (auto simp: prevAfter_def split: if_splits option.splits)
  next
    case False
    with Suc.prems have "m \<le> n" by simp
    moreover from Suc.prems False have "try_counts k prev s lo n = None"
      by (auto split: if_splits option.splits)
    ultimately show ?thesis using Suc.IH Suc.prems(2) by blast
  qed
qed

lemma try_counts_first:
  "lo \<le> n \<Longrightarrow> k (prevAfter prev s n) (drop n s) = Some segs \<Longrightarrow>
     try_counts k prev s lo n = Some (take n s # segs)"
  by (cases n) (simp_all add: prevAfter_def)

lemma takeWhile_count:
  "list_all P g \<Longrightarrow> prefix g s \<Longrightarrow> length g \<le> length (takeWhile P s)"
proof (induction g arbitrary: s)
  case Nil
  then show ?case by simp
next
  case (Cons x g)
  then obtain t where "s = x # t" "prefix g t"
    by (cases s) auto
  with Cons show ?case by simp
qed

lemma take_takeWhile: "m \<le> length (takeWhile P s) \<Longrightarrow> take m (takeWhile P s) = take m s"
proof (induction s arbitrary: m)
  case Nil
  then show ?case by simp
next
  case (Cons x s)
  then show ?case by (cases m) (auto split: if_splits)
qed

lemma match_sound:
  "match_items its prev s = Some segs \<Longrightarrow> list_all2 fits its segs \<and> prefix (concat segs) s"
proof (induction its arbitrary: prev s segs)
  case Nil
  then show ?case by simp
next
  case (Cons it its)
  show ?case
  proof (cases it)
    case (Rep P lo hi)
    define n where "n = (case hi of None \<Rightarrow> length (takeWhile P s)
                          | Some h \<Rightarrow> min h (length (takeWhile P s)))"
    from Cons.prems Rep have "try_counts (match_items its) prev s lo n = Some segs"
      by (simp add: n_def Let_def)
    from try_counts_Some [OF this] obtain m gs where
      m: "lo \<le> m" "m \<le> n" "match_items its (prevAfter prev s m) (drop m s) = Some gs"
         "segs = take m s # gs"
      by blast
    have n_le: "n \<le> length (takeWhile P s)"
      by (simp add: n_def split: option.splits)
    have "m \<le> length (takeWhile P s)" using m(2) n_le by simp
    then have "take m s = take m (takeWhile P s)"
      by (simp add: take_takeWhile)
    moreover have "list_all P (take m (takeWhile P s))"
      by (auto simp: list_all_iff dest!: in_set_takeD dest: set_takeWhileD)
    ultimately have allP: "list_all P (take m s)" by simp
    have lenm: "length (take m s) = m"
      using \<open>m \<le> length (takeWhile P s)\<close> length_takeWhile_le [of P s] by simp
    have hi_ok: "(case hi of None \<Rightarrow> True | Some h \<Rightarrow> m \<le> h)"
      using m(2) by (simp add: n_def split: option.splits)
    from Cons.IH [OF m(3)] have ih: "list_all2 fits its gs" "prefix (concat gs) (drop m s)"
      by simp_all
    have "prefix (take m s @ concat gs) (take m s @ drop m s)"
      using ih(2) by (simp only: same_prefix_prefix)
    then have "prefix (concat segs) s"
      by (simp only: append_take_drop_id m(4) concat.simps)
    moreover have "fits it (take m s)"
      unfolding Rep fits.simps lenm using m(1) hi_ok allP by simp
    ultimately show ?thesis using ih(1) m(4) by simp
  next
    case WordB
    with Cons.prems obtain gs where gs: "match_items its prev s = Some gs" "segs = [] # gs"
      by (auto split: if_splits option.splits)
    from Cons.IH [OF gs(1)] gs(2) WordB show ?thesis by simp
  qed
qed

lemma match_complete:
  "list_all isRep its \<Longrightarrow> list_all2 fits its gs \<Longrightarrow> prefix (concat gs) s \<Longrightarrow>
     match_items its prev s \<noteq> None"
proof (induction its arbitrary: gs prev s)
  case Nil
  then show ?case by simp
next
  case (Cons it its)
  from Cons.prems(1) obtain P lo hi where it: "it = Rep P lo hi"
    by (cases it) auto
  from Cons.prems(2) obtain g gs' where gs: "gs = g # gs'" "fits it g" "list_all2 fits its gs'"
    by (cases gs) auto
  define n where "n = (case hi of None \<Rightarrow> length (takeWhile P s)
                        | Some h \<Rightarrow> min h (length (takeWhile P s)))"
  from Cons.prems(3) gs(1) have pre: "prefix (g @ concat gs') s" by simp
  then have g_pre: "prefix g s" by (rule append_prefixD)
  from gs(2) it have g: "lo \<le> length g" "list_all P g"
    "(case hi of None \<Rightarrow> True | Some h \<Rightarrow> length g \<le> h)" by simp_all
  have "length g \<le> length (takeWhile P s)"
    by (rule takeWhile_count [OF g(2) g_pre])
  with g(3) have le_n: "length g \<le> n"
    by (simp add: n_def split: option.splits)
  from pre have "prefix (concat gs') (drop (length g) s)"
    by (auto simp: prefix_def)
  with Cons.IH [OF _ gs(3)] Cons.prems(1)
  have ne: "match_items its (prevAfter prev s (length g)) (drop (length g) s) \<noteq> None"
    by simp
  have "try_counts (match_items its) prev s lo n \<noteq> None"
  proof
    assume "try_counts (match_items its) prev s lo n = None"
    from try_counts_None [OF this g(1) le_n] ne show False by simp
  qed
  then show ?case by (simp add: it n_def Let_def)
qed

lemma match_last:
  "match_items [Rep P lo None] prev s
     = (if lo \<le> length (takeWhile P s) then Some [takeWhile P s] else None)"
proof (cases "lo \<le> length (takeWhile P s)")
  case True
  have "try_counts (match_items []) prev s lo (length (takeWhile P s))
          = Some (take (length (takeWhile P s)) s # [])"
    by (rule try_counts_first [OF True]) simp
  moreover have "take (length (takeWhile P s)) s = takeWhile P s"
    using take_takeWhile [of "length (takeWhile P s)" P s] by simp
  ultimately show ?thesis using True by (simp add: Let_def)
next
  case False
  have "try_counts (match_items []) prev s lo (length (takeWhile P s)) = None"
  proof (cases "try_counts (match_items []) prev s lo (length (takeWhile P s))")
    case None
    then show ?thesis .
  next
    case (Some r)
    from try_counts_Some [OF Some] False show ?thesis by auto
  qed
  then show ?thesis using False by (simp add: Let_def)
qed

lemma match_maximal:
  "match_items (its @ [Rep P lo None]) prev s = Some segs \<Longrightarrow>
     length (concat segs) < length s \<Longrightarrow> \<not> P (s ! length (concat segs))"
proof (induction its arbitrary: prev s segs)
  case Nil
  then have "segs = [takeWhile P s]"
    using match_last [of P lo prev s] by (simp split: if_splits)
  with Nil.prems(2) show ?case
    using nth_length_takeWhile [of P s] by simp
next
  case (Cons it its)
  show ?case
  proof (cases it)
    case (Rep Q l h)
    define n where "n = (case h of None \<Rightarrow> length (takeWhile Q s)
                          | Some h' \<Rightarrow> min h' (length (takeWhile Q s)))"
    from Cons.prems(1) Rep
    have "try_counts (match_items (its @ [Rep P lo None])) prev s l n = Some segs"
      by (simp add: n_def Let_def)
    from try_counts_Some [OF this] obtain m gs where
      m: "m \<le> n" "match_items (its @ [Rep P lo None]) (prevAfter prev s m) (drop m s) = Some gs"
         "segs = take m s # gs"
      by blast
    have "n \<le> length s"
      using length_takeWhile_le [of Q s] by (auto simp: n_def min_def split: option.splits)
    with m(1) have ms: "m \<le> length s" by simp
    then have len: "length (concat segs) = m + length (concat gs)"
      by (simp add: m(3))
    with Cons.prems(2) ms have "length (concat gs) < length (drop m s)" by simp
    from Cons.IH [OF m(2) this] have "\<not> P (drop m s ! length (concat gs))" .
    then show ?thesis using ms len by simp
  next
    case WordB
    with Cons.prems(1) obtain gs where
      gs: "match_items (its @ [Rep P lo None]) prev s = Some gs" "segs = [] # gs"
      by (auto split: if_splits option.splits)
    with Cons.IH [OF gs(1)] Cons.prems(2) show ?thesis by simp
  qed
qed

lemma line2Regex_app:
  "line2Regex = [Rep isDigit 9 (Some 12), Rep isAlnumUpper 5 None, Rep isFiller 1 (Some 1)]
                @ [Rep isMrzChar 10 None]"
  by (simp add: line2Regex_def)

lemma fits_line2:
  "list_all2 fits line2Regex gs =
     (\<exists>a b c. gs = [a, b, ''<'', c]
        \<and> 9 \<le> length a \<and> length a \<le> 12 \<and> list_all isDigit a
        \<and> 5 \<le> length b \<and> list_all isAlnumUpper b
        \<and> 10 \<le> length c \<and> list_all isMrzChar c)"
proof -
  have one: "fits (Rep isFiller 1 (Some 1)) f = (f = ''<'')" for f
    by (cases f; cases "tl f") (auto simp: isFiller_def)
  show ?thesis
    unfolding line2Regex_def
    by (simp only: list_all2_Cons1 list_all2_Nil one) auto
qed

lemma line2Shape_fits:
  "line2Shape w = (\<exists>gs. list_all2 fits line2Regex gs \<and> concat gs = w)"
proof
  assume "line2Shape w"
  then obtain a b c where w: "w = a @ b @ ''<'' @ c"
    and h: "9 \<le> length a" "length a \<le> 12" "list_all isDigit a"
       "5 \<le> length b" "list_all isAlnumUpper b" "10 \<le> length c" "list_all isMrzChar c"
    unfolding line2Shape_def by blast
  have "list_all2 fits line2Regex [a, b, ''<'', c]"
    unfolding fits_line2 using h by blast
  moreover have "concat [a, b, ''<'', c] = w" by (simp add: w)
  ultimately show "\<exists>gs. list_all2 fits line2Regex gs \<and> concat gs = w" by blast
next
  assume "\<exists>gs. list_all2 fits line2Regex gs \<and> concat gs = w"
  then obtain a b c where "w = concat [a, b, ''<'', c]"
    and h: "9 \<le> length a" "length a \<le> 12" "list_all isDigit a"
       "5 \<le> length b" "list_all isAlnumUpper b" "10 \<le> length c" "list_all isMrzChar c"
    unfolding fits_line2 by blast
  then have "w = a @ b @ ''<'' @ c" by simp
  with h show "line2Shape w" unfolding line2Shape_def by blast
qed

lemma line2Shape_chars:
  assumes "line2Shape w"
  shows "list_all isMrzChar w" and "25 \<le> length w"
proof -
  from assms obtain a b c where w: "w = a @ b @ ''<'' @ c"
    and a: "9 \<le> length a" "list_all isDigit a" and b: "5 \<le> length b" "list_all isAlnumUpper b"
    and c: "10 \<le> length c" "list_all isMrzChar c"
    unfolding line2Shape_def by blast
  show "list_all isMrzChar w"
    using a(2) b(2) c(2) unfolding w
    by (auto simp: list_all_iff isMrzChar_def isAlnumUpper_def)
  show "25 \<le> length w"
    using a(1) b(1) c(1) unfolding w by simp
qed

lemma line2_match:
  assumes "match_items line2Regex prev s = Some segs"
  shows "line2Shape (concat segs)" and "prefix (concat segs) s"
    and "length (concat segs) < length s \<Longrightarrow> \<not> isMrzChar (s ! length (concat segs))"
proof -
  from match_sound [OF assms] have f: "list_all2 fits line2Regex segs" and p: "prefix (concat segs) s"
    by simp_all
  from f show "line2Shape (concat segs)"
    unfolding line2Shape_fits by blast
  from p show "prefix (concat segs) s" .
  show "\<not> isMrzChar (s ! length (concat segs))" if "length (concat segs) < length s"
    using match_maximal [OF assms [unfolded line2Regex_app] that] .
qed

lemma line2_complete:
  assumes "line2Shape w" and "prefix w s"
  shows "\<exists>segs. match_items line2Regex prev s = Some segs \<and> length w \<le> length (concat segs)"
proof -
  from assms(1) obtain gs where gs: "list_all2 fits line2Regex gs" "concat gs = w"
    unfolding line2Shape_fits by blast
  have "list_all isRep line2Regex" by (simp add: line2Regex_def)
  from match_complete [OF this gs(1), of s prev] assms(2) gs(2)
  obtain segs where segs: "match_items line2Regex prev s = Some segs" by auto
  have "length w \<le> length (concat segs)"
  proof (rule ccontr)
    assume "\<not> ?thesis"
    then have lt: "length (concat segs) < length w" by simp
    from assms(2) have ws: "length w \<le> length s" by (rule prefix_length_le)
    from assms(2) lt have "s ! length (concat segs) = w ! length (concat segs)"
      by (auto simp: prefix_def nth_append)
    moreover have "isMrzChar (w ! length (concat segs))"
      using line2Shape_chars(1) [OF assms(1)] lt by (simp add: list_all_length)
    ultimately show False
      using line2_match(3) [OF segs] lt ws by simp
  qed
  with segs show ?thesis by blast
qed

lemma matchAll_Nil_skip: "0 < skip \<Longrightarrow> matchAll its prev [] skip = []"
  by simp

lemma matchAll_Nil_None: "match_items its prev [] = None \<Longrightarrow> matchAll its prev [] 0 = []"
  by simp

lemma matchAll_Nil_Some:
  "match_items its prev [] = Some segs \<Longrightarrow> matchAll its prev [] 0 = [concat segs]"
  by simp

lemma matchAll_Cons_skip:
  "0 < skip \<Longrightarrow> matchAll its prev (c # cs) skip = matchAll its (Some c) cs (skip - 1)"
  by simp

lemma matchAll_Cons_None:
  "match_items its prev (c # cs) = None \<Longrightarrow>
     matchAll its prev (c # cs) 0 = matchAll its (Some c) cs 0"
  by simp

lemma matchAll_Cons_Some:
  "match_items its prev (c # cs) = Some segs \<Longrightarrow>
     matchAll its prev (c # cs) 0
       = concat segs # matchAll its (Some c) cs (length (concat segs) - 1)"
  by simp

declare matchAll.simps [simp del]

lemma matchAt_I:
  "s = t @ u \<Longrightarrow> match_items its pv u = Some segs \<Longrightarrow> m = concat segs \<Longrightarrow>
     \<exists>t u pv segs. s = t @ u \<and> match_items its pv u = Some segs \<and> m = concat segs"
  by blast

lemma matchAll_sound:
  "m \<in> set (matchAll its prev s skip) \<Longrightarrow>
     \<exists>t u pv segs. s = t @ u \<and> match_items its pv u = Some segs \<and> m = concat segs"
proof (induction s arbitrary: prev skip)
  case Nil
  show ?case
  proof (cases "0 < skip")
    case True
    with Nil show ?thesis by (simp add: matchAll_Nil_skip)
  next
    case False
    then have sk: "skip = 0" by simp
    show ?thesis
    proof (cases "match_items its prev []")
      case None
      with Nil sk show ?thesis by (simp add: matchAll_Nil_None [OF None])
    next
      case (Some segs)
      with Nil sk have "m = concat segs" by (simp add: matchAll_Nil_Some [OF Some])
      with Some show ?thesis
        by (intro matchAt_I [of "[]" "[]" "[]" its prev segs m]) simp_all
    qed
  qed
next
  case (Cons c cs)
  show ?case
  proof (cases "0 < skip")
    case True
    with Cons.prems have "m \<in> set (matchAll its (Some c) cs (skip - 1))"
      by (simp add: matchAll_Cons_skip)
    from Cons.IH [OF this] obtain t u pv segs where
      "cs = t @ u" "match_items its pv u = Some segs" "m = concat segs" by blast
    then show ?thesis
      by (intro matchAt_I [of "c # cs" "c # t" u its pv segs m]) simp_all
  next
    case False
    then have sk: "skip = 0" by simp
    show ?thesis
    proof (cases "match_items its prev (c # cs)")
      case None
      with sk Cons.prems have "m \<in> set (matchAll its (Some c) cs 0)"
        by (simp add: matchAll_Cons_None [OF None])
      from Cons.IH [OF this] obtain t u pv segs where
        "cs = t @ u" "match_items its pv u = Some segs" "m = concat segs" by blast
      then show ?thesis
        by (intro matchAt_I [of "c # cs" "c # t" u its pv segs m]) simp_all
    next
      case (Some segs)
      with sk Cons.prems
      consider "m = concat segs"
        | "m \<in> set (matchAll its (Some c) cs (length (concat segs) - 1))"
        by (auto simp: matchAll_Cons_Some [OF Some])
      then show ?thesis
      proof cases
        case 1
        with Some show ?thesis
          by (intro matchAt_I [of "c # cs" "[]" "c # cs" its prev segs m]) simp_all
      next
        case 2
        from Cons.IH [OF this] obtain t u pv segs' where
          "cs = t @ u" "match_items its pv u = Some segs'" "m = concat segs'" by blast
        then show ?thesis
          by (intro matchAt_I [of "c # cs" "c # t" u its pv segs' m]) simp_all
      qed
    qed
  qed
qed

lemma matchAll_line2_sound:
  assumes "m \<in> set (matchAll line2Regex prev s skip)"
  shows "line2Shape m \<and> sublist m s"
proof -
  from matchAll_sound [OF assms] obtain t u pv segs where
    s: "s = t @ u" and mt: "match_items line2Regex pv u = Some segs" and m: "m = concat segs"
    by blast
  from line2_match(2) [OF mt] obtain r where "u = m @ r"
    unfolding m prefix_def by blast
  then have "s = t @ m @ r" using s by simp
  then have "sublist m s" unfolding sublist_def by blast
  with line2_match(1) [OF mt] m show ?thesis by simp
qed

lemma matchAll_covers:
  assumes w: "line2Shape w"
  shows "s = t @ w @ v \<Longrightarrow> (skip < length s \<longrightarrow> skip = 0 \<or> \<not> isMrzChar (s ! skip)) \<Longrightarrow>
     (length t < skip \<and> length t + length w \<le> skip)
     \<or> (\<exists>m \<in> set (matchAll line2Regex prev s skip). length w \<le> length m)"
proof (induction s arbitrary: t prev skip)
  case Nil
  then have "w = []" by simp
  with line2Shape_chars(2) [OF w] show ?case by simp
next
  case (Cons c cs)
  note wm = line2Shape_chars(1) [OF w]
  show ?case
  proof (cases "0 < skip")
    case True
    then have ma: "matchAll line2Regex prev (c # cs) skip = matchAll line2Regex (Some c) cs (skip - 1)"
      by (rule matchAll_Cons_skip)
    show ?thesis
    proof (cases t)
      case Nil
      have "length w \<le> skip"
      proof (rule ccontr)
        assume "\<not> length w \<le> skip"
        then have lt: "skip < length w" by simp
        with Cons.prems(1) Nil have "skip < length (c # cs)" by simp
        with Cons.prems(2) True have "\<not> isMrzChar ((c # cs) ! skip)" by simp
        moreover have "(c # cs) ! skip = w ! skip"
          using Cons.prems(1) Nil lt by (simp add: nth_append)
        moreover have "isMrzChar (w ! skip)"
          using wm lt by (simp add: list_all_length)
        ultimately show False by simp
      qed
      with True Nil show ?thesis by simp
    next
      case (Cons x t')
      with Cons.prems(1) have cs: "cs = t' @ w @ v" by simp
      have inv: "skip - 1 < length cs \<longrightarrow> skip - 1 = 0 \<or> \<not> isMrzChar (cs ! (skip - 1))"
        using Cons.prems(2) True by (cases skip) auto
      from Cons.IH [OF cs inv, of "Some c"] show ?thesis
        unfolding ma using Cons True by auto
    qed
  next
    case False
    then have sk: "skip = 0" by simp
    show ?thesis
    proof (cases t)
      case Nil
      with Cons.prems(1) have "prefix w (c # cs)" by (simp add: prefix_def)
      from line2_complete [OF w this, of prev] obtain segs where
        "match_items line2Regex prev (c # cs) = Some segs" "length w \<le> length (concat segs)"
        by blast
      then show ?thesis using sk by (auto simp: matchAll_Cons_Some [of line2Regex prev c cs segs])
    next
      case (Cons x t')
      with Cons.prems(1) have cs: "cs = t' @ w @ v" by simp
      show ?thesis
      proof (cases "match_items line2Regex prev (c # cs)")
        case None
        from Cons.IH [OF cs, of 0 "Some c"] sk show ?thesis
          by (auto simp: matchAll_Cons_None [OF None])
      next
        case (Some segs)
        define L where "L = length (concat segs)"
        have Lpos: "25 \<le> L"
          using line2Shape_chars(2) [OF line2_match(1) [OF Some]] by (simp add: L_def)
        have inv: "L - 1 < length cs \<longrightarrow> L - 1 = 0 \<or> \<not> isMrzChar (cs ! (L - 1))"
        proof
          assume "L - 1 < length cs"
          then have "L < length (c # cs)" using Lpos by simp
          from line2_match(3) [OF Some this [unfolded L_def]]
          have "\<not> isMrzChar ((c # cs) ! L)" by (simp add: L_def)
          then show "L - 1 = 0 \<or> \<not> isMrzChar (cs ! (L - 1))"
            using Lpos by (cases L) auto
        qed
        have ma: "matchAll line2Regex prev (c # cs) skip
                    = concat segs # matchAll line2Regex (Some c) cs (L - 1)"
          using sk by (simp add: L_def matchAll_Cons_Some [OF Some])
        from Cons.IH [OF cs inv, of "Some c"]
        consider "length t' < L - 1 \<and> length t' + length w \<le> L - 1"
          | "\<exists>m \<in> set (matchAll line2Regex (Some c) cs (L - 1)). length w \<le> length m"
          by blast
        then show ?thesis
        proof cases
          case 1
          then have "length w \<le> length (concat segs)" unfolding L_def by arith
          then show ?thesis unfolding ma by simp
        next
          case 2
          then show ?thesis unfolding ma by auto
        qed
      qed
    qed
  qed
qed

lemma matchAll_line2_longest:
  assumes "line2Shape w" and "sublist w s"
  shows "\<exists>m \<in> set (matchAll line2Regex None s 0). length w \<le> length m"
proof -
  from assms(2) obtain t v where "s = t @ w @ v"
    unfolding sublist_def by blast
  from matchAll_covers [OF assms(1) this, of 0 None] show ?thesis by simp
qed

lemma hd_sortByLengthDesc:
  assumes "ms \<noteq> []"
  shows "hd (sortByLengthDesc ms) \<in> set ms"
    and "m \<in> set ms \<Longrightarrow> length m \<le> length (hd (sortByLengthDesc ms))"
proof -
  let ?f = "\<lambda>m::string. - int (length m)"
  define xs where "xs = sort_key ?f ms"
  have set: "set xs = set ms" by (simp add: xs_def)
  with assms have ne: "xs \<noteq> []" by auto
  then obtain x rest where xs: "xs = x # rest" by (cases xs) auto
  have "sorted (map ?f xs)" unfolding xs_def by (rule sorted_sort_key)
  then have le: "\<forall>y \<in> set rest. ?f x \<le> ?f y" by (simp add: xs)
  show "hd (sortByLengthDesc ms) \<in> set ms"
    using set xs by (auto simp: sortByLengthDesc_def xs_def [symmetric])
  show "length m \<le> length (hd (sortByLengthDesc ms))" if "m \<in> set ms"
  proof -
    from that set xs have "m = x \<or> m \<in> set rest" by auto
    with le have "length m \<le> length x" by auto
    then show ?thesis by (simp add: sortByLengthDesc_def xs_def [symmetric] xs)
  qed
qed

lemma extractMrzLine2_lines_find:
  "extractMrzLine2_lines ls = find looksLikeLine2 (map (\<lambda>line. toUpperCase (stripSpaces line)) ls)"
  by (induction ls) (simp_all add: Let_def)

lemma str_includes_char: "str_includes s [c] = (c \<in> set s)"
  unfolding str_includes_def sublist_def in_set_conv_decomp by simp

lemma startDigits_match:
  "(match_items startDigitsRegex None clean \<noteq> None)
     = (\<exists>k. 9 \<le> k \<and> k \<le> 12 \<and> k \<le> length clean \<and> list_all isDigit (take k clean))"
proof
  assume "match_items startDigitsRegex None clean \<noteq> None"
  then obtain segs where m: "match_items startDigitsRegex None clean = Some segs" by blast
  from match_sound [OF m] obtain g where g: "segs = [g]" "9 \<le> length g" "length g \<le> 12"
      "list_all isDigit g" "prefix g clean"
    unfolding startDigitsRegex_def by (auto simp: list_all2_Cons1)
  from g(5) have "take (length g) clean = g" "length g \<le> length clean"
    by (auto simp: prefix_def)
  with g show "\<exists>k. 9 \<le> k \<and> k \<le> 12 \<and> k \<le> length clean \<and> list_all isDigit (take k clean)"
    by (intro exI [of _ "length g"]) simp
next
  assume "\<exists>k. 9 \<le> k \<and> k \<le> 12 \<and> k \<le> length clean \<and> list_all isDigit (take k clean)"
  then obtain k where k: "9 \<le> k" "k \<le> 12" "k \<le> length clean" "list_all isDigit (take k clean)"
    by blast
  have "list_all isRep startDigitsRegex" by (simp add: startDigitsRegex_def)
  moreover have "list_all2 fits startDigitsRegex [take k clean]"
    using k by (simp add: startDigitsRegex_def)
  moreover have "prefix (concat [take k clean]) clean"
    by (simp add: take_is_prefix)
  ultimately show "match_items startDigitsRegex None clean \<noteq> None"
    by (rule match_complete)
qed

lemma looksLikeLine2_iff: "looksLikeLine2 clean = line2Line clean"
  unfolding looksLikeLine2_def line2Line_def startDigits_match str_includes_char
  by auto

subsection \<open>Secondary engine: MRZ line 2\<close>

lemma extractMrzLine2FromText_unfold:
  "extractMrzLine2FromText text =
     (case find looksLikeLine2 (cleanLines text) of
        Some clean \<Rightarrow> Some clean
      | None \<Rightarrow>
          (if matchAll line2Regex None (fullClean text) 0 \<noteq> []
           then Some (hd (sortByLengthDesc (matchAll line2Regex None (fullClean text) 0)))
           else None))"
proof (cases "find looksLikeLine2 (cleanLines text)")
  case None
  then have "extractMrzLine2_lines (split CHR 0x0A text) = None"
    by (simp add: extractMrzLine2_lines_find cleanLines_def)
  then show ?thesis
    using None by (simp add: extractMrzLine2FromText_def fullClean_def Let_def)
next
  case (Some clean)
  then have "extractMrzLine2_lines (split CHR 0x0A text) = Some clean"
    by (simp add: extractMrzLine2_lines_find cleanLines_def)
  then show ?thesis
    using Some by (simp add: extractMrzLine2FromText_def)
qed

lemma extract_first_line:
  assumes "i < length (cleanLines text)" and "line2Line (cleanLines text ! i)"
    and "\<forall>j<i. \<not> line2Line (cleanLines text ! j)"
  shows "extractMrzLine2FromText text = Some (cleanLines text ! i)"
proof -
  have "find looksLikeLine2 (cleanLines text) = Some (cleanLines text ! i)"
    unfolding find_Some_iff looksLikeLine2_iff using assms by blast
  then show ?thesis by (simp add: extractMrzLine2FromText_unfold)
qed

lemma extract_no_line:
  assumes "\<forall>l \<in> set (cleanLines text). \<not> line2Line l"
  shows "extractMrzLine2FromText text =
           (if matchAll line2Regex None (fullClean text) 0 \<noteq> []
            then Some (hd (sortByLengthDesc (matchAll line2Regex None (fullClean text) 0)))
            else None)"
proof -
  have "find looksLikeLine2 (cleanLines text) = None"
    unfolding find_None_iff looksLikeLine2_iff using assms by blast
  then show ?thesis by (simp add: extractMrzLine2FromText_unfold)
qed

lemma extract_fallback_Some:
  assumes "\<forall>l \<in> set (cleanLines text). \<not> line2Line l"
    and "extractMrzLine2FromText text = Some m"
  shows "sublist m (fullClean text)" and "line2Shape m"
    and "sublist w (fullClean text) \<Longrightarrow> line2Shape w \<Longrightarrow> length w \<le> length m"
proof -
  let ?ms = "matchAll line2Regex None (fullClean text) 0"
  from assms extract_no_line [OF assms(1)]
  have ne: "?ms \<noteq> []" and m: "m = hd (sortByLengthDesc ?ms)"
    by (auto split: if_splits)
  from hd_sortByLengthDesc(1) [OF ne] m have "m \<in> set ?ms" by simp
  from matchAll_line2_sound [OF this]
  show "sublist m (fullClean text)" and "line2Shape m" by simp_all
  show "length w \<le> length m" if "sublist w (fullClean text)" "line2Shape w"
  proof -
    from matchAll_line2_longest [OF that(2) that(1)] obtain m' where
      m': "m' \<in> set ?ms" "length w \<le> length m'" by blast
    from hd_sortByLengthDesc(2) [OF ne m'(1)] m m'(2) show ?thesis by simp
  qed
qed

lemma extract_fallback_None:
  assumes "\<forall>l \<in> set (cleanLines text). \<not> line2Line l"
  shows "(extractMrzLine2FromText text = None)
           = (\<not> (\<exists>w. sublist w (fullClean text) \<and> line2Shape w))"
proof
  assume none: "extractMrzLine2FromText text = None"
  with extract_no_line [OF assms]
  have e: "matchAll line2Regex None (fullClean text) 0 = []"
    by (auto split: if_splits)
  show "\<not> (\<exists>w. sublist w (fullClean text) \<and> line2Shape w)"
  proof
    assume "\<exists>w. sublist w (fullClean text) \<and> line2Shape w"
    then obtain w where "sublist w (fullClean text)" "line2Shape w" by blast
    from matchAll_line2_longest [OF this(2) this(1)] e show False by simp
  qed
next
  assume no: "\<not> (\<exists>w. sublist w (fullClean text) \<and> line2Shape w)"
  have "matchAll line2Regex None (fullClean text) 0 = []"
  proof (cases "matchAll line2Regex None (fullClean text) 0")
    case Nil
    then show ?thesis .
  next
    case (Cons m ms)
    then have "m \<in> set (matchAll line2Regex None (fullClean text) 0)" by simp
    from matchAll_line2_sound [OF this] no show ?thesis by blast
  qed
  with extract_no_line [OF assms] show "extractMrzLine2FromText text = None" by simp
qed

lemma extract_None_no_line:
  assumes "extractMrzLine2FromText text = None"
  shows "\<forall>l \<in> set (cleanLines text). \<not> line2Line l"
proof -
  from assms have "find looksLikeLine2 (cleanLines text) = None"
    by (auto simp: extractMrzLine2FromText_unfold split: option.splits)
  then show ?thesis
    unfolding find_None_iff looksLikeLine2_iff by blast
qed

lemma line2_text_a_lines:
  "cleanLines line2_text_a = [''CARTEABC'', ''1902381511749304301M3306275FRA<<<<<<<<<<<0'']"
  by code_simp

lemma line2_text_a_looks:
  "\<not> looksLikeLine2 ''CARTEABC'' \<and> looksLikeLine2 ''1902381511749304301M3306275FRA<<<<<<<<<<<0''"
  by code_simp

lemma line2_text_b_lines:
  "list_all (\<lambda>l. \<not> looksLikeLine2 l) (cleanLines line2_text_b)"
  by code_simp

lemma line2_text_b_result:
  "extractMrzLine2FromText line2_text_b = Some ''1902381511749304301M3306275FRA<<<<<<<<<<<0''"
  by code_simp

text \<open>
  C7: \<open>extractMrzLine2FromText\<close> returns the first line that, stripped of white space
  and upper-cased, has at least 27 characters, all in \<open>[0-9A-Z<]\<close>, starts with 9 to 12
  digits and contains a filler. When no line does, the result is a longest substring of
  the stripped, upper-cased text that has the shape of the second regular expression; and
  the result is null exactly when no line qualifies and no substring has that shape.
\<close>

theorem extractMrzLine2FromText_spec:
  "(\<forall>i. i < length (cleanLines text) \<and> line2Line (cleanLines text ! i)
         \<and> (\<forall>j<i. \<not> line2Line (cleanLines text ! j))
        \<longrightarrow> extractMrzLine2FromText text = Some (cleanLines text ! i))
   \<and> ((\<forall>l \<in> set (cleanLines text). \<not> line2Line l) \<longrightarrow>
        (\<forall>m. extractMrzLine2FromText text = Some m \<longrightarrow>
              sublist m (fullClean text) \<and> line2Shape m
              \<and> (\<forall>w. sublist w (fullClean text) \<and> line2Shape w \<longrightarrow> length w \<le> length m)))
   \<and> ((extractMrzLine2FromText text = None)
        = ((\<forall>l \<in> set (cleanLines text). \<not> line2Line l)
           \<and> \<not> (\<exists>w. sublist w (fullClean text) \<and> line2Shape w)))"
proof (intro conjI allI impI)
  fix i
  assume "i < length (cleanLines text) \<and> line2Line (cleanLines text ! i)
          \<and> (\<forall>j<i. \<not> line2Line (cleanLines text ! j))"
  then show "extractMrzLine2FromText text = Some (cleanLines text ! i)"
    using extract_first_line by blast
next
  fix m
  assume "\<forall>l \<in> set (cleanLines text). \<not> line2Line l" "extractMrzLine2FromText text = Some m"
  from extract_fallback_Some(1) [OF this] show "sublist m (fullClean text)" .
next
  fix m
  assume "\<forall>l \<in> set (cleanLines text). \<not> line2Line l" "extractMrzLine2FromText text = Some m"
  from extract_fallback_Some(2) [OF this] show "line2Shape m" .
next
  fix m w
  assume h: "\<forall>l \<in> set (cleanLines text). \<not> line2Line l" "extractMrzLine2FromText text = Some m"
    and w: "sublist w (fullClean text) \<and> line2Shape w"
  from extract_fallback_Some(3) [OF h] w show "length w \<le> length m" by blast
next
  show "(extractMrzLine2FromText text = None)
        = ((\<forall>l \<in> set (cleanLines text). \<not> line2Line l)
           \<and> \<not> (\<exists>w. sublist w (fullClean text) \<and> line2Shape w))"
    using extract_None_no_line [of "text"] extract_fallback_None [of "text"] by blast
qed

theorem extractMrzLine2FromText_spec_witness:
  "extractMrzLine2FromText line2_text_a = Some ''1902381511749304301M3306275FRA<<<<<<<<<<<0''
   \<and> list_all (\<lambda>l. \<not> line2Line l) (cleanLines line2_text_b)
   \<and> extractMrzLine2FromText line2_text_b = Some ''1902381511749304301M3306275FRA<<<<<<<<<<<0''
   \<and> sublist ''1902381511749304301M3306275FRA<<<<<<<<<<<0'' (fullClean line2_text_b)
   \<and> line2Shape ''1902381511749304301M3306275FRA<<<<<<<<<<<0''
   \<and> \<not> (\<exists>w. sublist w (fullClean line2_text_b) \<and> line2Shape w \<and> 42 < length w)
   \<and> extractMrzLine2FromText ''abc'' = None
   \<and> \<not> (\<exists>w. sublist w (fullClean ''abc'') \<and> line2Shape w)"
proof -
  let ?m = "''1902381511749304301M3306275FRA<<<<<<<<<<<0''"
  have a: "1 < length (cleanLines line2_text_a) \<and> line2Line (cleanLines line2_text_a ! 1)
           \<and> (\<forall>j<1. \<not> line2Line (cleanLines line2_text_a ! j))"
    using line2_text_a_looks by (simp add: line2_text_a_lines looksLikeLine2_iff)
  have b: "\<forall>l \<in> set (cleanLines line2_text_b). \<not> line2Line l"
    using line2_text_b_lines by (simp add: list_all_iff looksLikeLine2_iff)
  have c: "extractMrzLine2FromText ''abc'' = None"
    by code_simp
  from extractMrzLine2FromText_spec [of line2_text_a] a
  have "extractMrzLine2FromText line2_text_a = Some (cleanLines line2_text_a ! 1)"
    by blast
  then have 1: "extractMrzLine2FromText line2_text_a = Some ?m"
    by (simp add: line2_text_a_lines)
  from extractMrzLine2FromText_spec [of line2_text_b] b line2_text_b_result
  have 2: "sublist ?m (fullClean line2_text_b) \<and> line2Shape ?m
           \<and> (\<forall>w. sublist w (fullClean line2_text_b) \<and> line2Shape w \<longrightarrow> length w \<le> length ?m)"
    by blast
  then have 3: "\<not> (\<exists>w. sublist w (fullClean line2_text_b) \<and> line2Shape w \<and> 42 < length w)"
    by fastforce
  from extractMrzLine2FromText_spec [of "''abc''"] c
  have 4: "\<not> (\<exists>w. sublist w (fullClean ''abc'') \<and> line2Shape w)"
    by blast
  have 5: "list_all (\<lambda>l. \<not> line2Line l) (cleanLines line2_text_b)"
    using b by (simp add: list_all_iff)
  show ?thesis
    using 1 2 3 4 5 c line2_text_b_result by blast
qed

subsection \<open>Engine orchestrator and outcome normalizer\<close>


lemma search_sound:
  "search its prev s = Some segs \<Longrightarrow> \<exists>pv u. suffix u s \<and> match_items its pv u = Some segs"
proof (induction s arbitrary: prev)
  case Nil
  then have "suffix [] [] \<and> match_items its prev [] = Some segs" by simp
  then show ?case by blast
next
  case (Cons c cs)
  show ?case
  proof (cases "match_items its prev (c # cs)")
    case None
    with Cons.prems have "search its (Some c) cs = Some segs" by simp
    from Cons.IH [OF this] obtain pv u where "suffix u cs" "match_items its pv u = Some segs"
      by blast
    then have "suffix u (c # cs) \<and> match_items its pv u = Some segs"
      by (simp add: suffix_Cons)
    then show ?thesis by blast
  next
    case (Some segs')
    with Cons.prems have "suffix (c # cs) (c # cs) \<and> match_items its prev (c # cs) = Some segs"
      by simp
    then show ?thesis by blast
  qed
qed

lemma labelRegex_group:
  assumes "search labelRegex prev s = Some segs"
  shows "length (segs ! 6) = 12 \<and> list_all isDigit (segs ! 6)"
proof -
  from search_sound [OF assms] obtain pv u where "match_items labelRegex pv u = Some segs"
    by blast
  from match_sound [OF this] have "list_all2 fits labelRegex segs" by simp
  then show ?thesis
    unfolding labelRegex_def by (auto simp: list_all2_Cons1)
qed

lemma wordDigitsRegex_group:
  assumes "search wordDigitsRegex prev s = Some segs"
  shows "length (segs ! 1) = 12 \<and> list_all isDigit (segs ! 1)"
proof -
  from search_sound [OF assms] obtain pv u where "match_items wordDigitsRegex pv u = Some segs"
    by blast
  from match_sound [OF this] have "list_all2 fits wordDigitsRegex segs" by simp
  then show ?thesis
    unfolding wordDigitsRegex_def by (auto simp: list_all2_Cons1)
qed

lemma extractCardNumber_lines_digits:
  "extractCardNumber_lines ls = Some c \<Longrightarrow> length c = 12 \<and> list_all isDigit c"
proof (induction ls)
  case Nil
  then show ?case by simp
next
  case (Cons line ls)
  show ?case
  proof (cases "str_includes line ''<''")
    case True
    with Cons show ?thesis by simp
  next
    case False
    show ?thesis
    proof (cases "search wordDigitsRegex None line")
      case None
      with False Cons show ?thesis by simp
    next
      case (Some segs)
      with False Cons.prems have "c = segs ! 1" by simp
      with wordDigitsRegex_group [OF Some] show ?thesis by simp
    qed
  qed
qed

lemma extractCardNumber_digits:
  assumes "extractCardNumberFromText text = Some c"
  shows "length c = 12 \<and> list_all isDigit c"
proof (cases "search labelRegex None text")
  case (Some segs)
  with assms have "c = segs ! 6" by (simp add: extractCardNumberFromText_def)
  with labelRegex_group [OF Some] show ?thesis by simp
next
  case None
  note n1 = this
  show ?thesis
  proof (cases "extractCardNumber_lines (split CHR 0x0A text)")
    case (Some m)
    with n1 assms have "c = m" by (simp add: extractCardNumberFromText_def)
    with extractCardNumber_lines_digits [OF Some] show ?thesis by simp
  next
    case None
    note n2 = this
    show ?thesis
    proof (cases "search wordDigitsRegex None text")
      case None
      with n1 n2 assms show ?thesis by (simp add: extractCardNumberFromText_def)
    next
      case (Some segs)
      with n1 n2 assms have "c = segs ! 1" by (simp add: extractCardNumberFromText_def)
      with wordDigitsRegex_group [OF Some] show ?thesis by simp
    qed
  qed
qed

lemma extractMrzLine2_nonempty:
  assumes "extractMrzLine2FromText text = Some m"
  shows "25 \<le> length m"
proof (cases "find looksLikeLine2 (cleanLines text)")
  case (Some clean)
  with assms have "m = clean" by (simp add: extractMrzLine2FromText_unfold)
  moreover from Some have "looksLikeLine2 clean" by (auto simp: find_Some_iff)
  ultimately show ?thesis by (simp add: looksLikeLine2_def)
next
  case None
  then have "\<forall>l \<in> set (cleanLines text). \<not> line2Line l"
    unfolding find_None_iff looksLikeLine2_iff by blast
  from line2Shape_chars(2) [OF extract_fallback_Some(2) [OF this assms]] show ?thesis .
qed

lemma falsy_cardNumber: "falsy (extractCardNumberFromText text) = (extractCardNumberFromText text = None)"
proof (cases "extractCardNumberFromText text")
  case None
  then show ?thesis by (simp add: falsy_def)
next
  case (Some c)
  with extractCardNumber_digits [OF Some] show ?thesis by (auto simp: falsy_def)
qed

lemma falsy_mrzLine2: "falsy (extractMrzLine2FromText text) = (extractMrzLine2FromText text = None)"
proof (cases "extractMrzLine2FromText text")
  case None
  then show ?thesis by (simp add: falsy_def)
next
  case (Some m)
  with extractMrzLine2_nonempty [OF Some] show ?thesis by (auto simp: falsy_def)
qed

lemma parseTesseract_no_number:
  assumes "extractCardNumberFromText text = None"
  shows "parseTesseract text dbg =
           \<lparr> status = 422,
             body = [(''valid'', JBool False),
                     (''reason'', JStr ''card_number_not_found''),
                     (''message'', JStr msg_no_card_number),
                     (''method'', JStr ''tesseract_fallback'')]
                    @ debugField dbg [(''raw_text'', JStr text)] \<rparr>"
  using assms falsy_cardNumber [of "text"] by (simp add: parseTesseract_def Let_def)

lemma parseTesseract_no_line2:
  assumes "extractCardNumberFromText text = Some c" "extractMrzLine2FromText text = None"
  shows "parseTesseract text dbg =
           \<lparr> status = 422,
             body = [(''valid'', JBool False),
                     (''reason'', JStr ''mrz_line2_not_found''),
                     (''message'', JStr msg_no_line2),
                     (''method'', JStr ''tesseract_fallback''),
                     (''card_number'', JStr c)]
                    @ debugField dbg [(''raw_text'', JStr text)] \<rparr>"
  using assms falsy_cardNumber [of "text"] falsy_mrzLine2 [of "text"]
  by (simp add: parseTesseract_def Let_def)

lemma parseTesseract_mismatch:
  assumes "extractCardNumberFromText text = Some c" "extractMrzLine2FromText text = Some l"
    and "\<not> sublist (normalizeMrz c) (normalizeMrz l)"
  shows "parseTesseract text dbg =
           \<lparr> status = 422,
             body = [(''valid'', JBool False),
                     (''reason'', JStr ''card_number_mrz_mismatch''),
                     (''message'', JStr (msg_mismatch c l)),
                     (''method'', JStr ''tesseract_fallback''),
                     (''card_number'', JStr c),
                     (''mrz_line2'', JStr l)]
                    @ debugField dbg [(''raw_text'', JStr text)] \<rparr>"
  using assms falsy_cardNumber [of "text"] falsy_mrzLine2 [of "text"]
  by (simp add: parseTesseract_def Let_def str_includes_def)

lemma parseTesseract_verified:
  assumes "extractCardNumberFromText text = Some c" "extractMrzLine2FromText text = Some l"
    and "sublist (normalizeMrz c) (normalizeMrz l)"
  shows "parseTesseract text dbg =
           \<lparr> status = 200,
             body = [(''valid'', JBool True),
                     (''method'', JStr ''tesseract_fallback''),
                     (''card_number'', JStr c),
                     (''mrz_line2'', JStr l),
                     (''all_checksums_ok'', JNull),
                     (''valid_score'', JNull)] \<rparr>"
  using assms falsy_cardNumber [of "text"] falsy_mrzLine2 [of "text"]
  by (simp add: parseTesseract_def Let_def str_includes_def)

lemma get_Cons: "get ((k', v) # obj) k = (if k' = k then v else get obj k)"
  by (simp add: get_def)

lemma get_Nil: "get [] k = JUndefined"
  by (simp add: get_def)

lemma get_append: "get (xs @ ys) k = (if map_of xs k = None then get ys k else get xs k)"
  by (auto simp: get_def map_add_def split: option.splits)


lemma readMrz_success:
  assumes "pdftoppm_run w = Resolved ()" and "findPng (tmpDir_files w) = Some img"
    and "passporteye_run w = Resolved (Some p)"
  shows "readMrzWithPassportEye w = ([Pdftoppm, Python3], Inr p)"
  using assms by (simp add: readMrzWithPassportEye_def)

lemma readMrz_trace:
  "fst (readMrzWithPassportEye w) = [Pdftoppm] \<or> fst (readMrzWithPassportEye w) = [Pdftoppm, Python3]"
  by (cases "pdftoppm_run w"; cases "findPng (tmpDir_files w)"; cases "passporteye_run w";
      cases "case passporteye_run w of Resolved x \<Rightarrow> x | _ \<Rightarrow> None")
     (auto simp: readMrzWithPassportEye_def)

lemma verify_id_reach:
  assumes "req_file req = Some buf" and "isPdfBuffer buf"
    and "mkdtemp_run w = Resolved ()" and "writeFile_run w = Resolved ()"
  shows "verify_id w req =
     (case primarySuccess (peyeResultOf (snd (readMrzWithPassportEye w))) of
        Some f \<Rightarrow>
          (fst (readMrzWithPassportEye w), Some \<lparr> status = 200,
            body = [(''valid'', JBool True),
                    (''method'', JStr ''passporteye''),
                    (''card_number'', JStr (pe_number f)),
                    (''mrz_line1'', JStr (pe_mrz_line1 f)),
                    (''mrz_line2'', JStr (pe_mrz_line2 f)),
                    (''surname'', JStr (pe_surname f)),
                    (''names'', JStr (pe_names f)),
                    (''date_of_birth'', JStr (pe_date_of_birth f)),
                    (''expiration_date'', JStr (pe_expiration_date f)),
                    (''nationality'', JStr (pe_nationality f)),
                    (''sex'', JStr (pe_sex f)),
                    (''all_checksums_ok'', JBool (pe_all_checksums_ok f)),
                    (''valid_score'', JNum (pe_valid_score f))] \<rparr>)
      | None \<Rightarrow>
          (fst (readMrzWithPassportEye w)
             @ fst (tesseractFallback w req (peyeResultOf (snd (readMrzWithPassportEye w)))),
           snd (tesseractFallback w req (peyeResultOf (snd (readMrzWithPassportEye w))))))"
proof (cases "primarySuccess (peyeResultOf (snd (readMrzWithPassportEye w)))")
  case None
  then show ?thesis
    using assms by (simp add: verify_id_def Let_def case_prod_beta)
next
  case (Some f)
  then show ?thesis
    using assms by (simp add: verify_id_def Let_def case_prod_beta)
qed

lemma sample_world_ok:
  "req_file pdf_request = Some [0x25, 0x50, 0x44, 0x46, 0x2D]"
  "isPdfBuffer [0x25, 0x50, 0x44, 0x46, 0x2D]"
  "mkdtemp_run (sample_world p t) = Resolved ()"
  "writeFile_run (sample_world p t) = Resolved ()"
  "pdftoppm_run (sample_world p t) = Resolved ()"
  "findPng (tmpDir_files (sample_world p t)) = Some ''page-1.png''"
  "passporteye_run (sample_world p t) = p"
  "ocrmypdf_run (sample_world p t) = Resolved ()"
  "tesseractText (sample_world p t) = t"
  "req_debug pdf_request = False"
  by (simp_all add: pdf_request_def isPdfBuffer_def sample_world_def findPng_def tesseractText_def)

text \<open>
  C2: when the primary engine reports success with a non-empty card number, the handler
  answers 200 with \<open>valid = true\<close>, \<open>method = passporteye\<close> and that card number, and the
  tools spawned in the run are \<open>pdftoppm\<close> and the PassportEye script only: neither
  \<open>ocrmypdf\<close> nor \<open>pdftotext\<close> is spawned.
\<close>

theorem primary_success_no_fallback:
  assumes "req_file req = Some buf" and "isPdfBuffer buf"
    and "mkdtemp_run w = Resolved ()" and "writeFile_run w = Resolved ()"
    and "pdftoppm_run w = Resolved ()" and "findPng (tmpDir_files w) = Some img"
    and "passporteye_run w = Resolved (Some (PeyeOk f))" and "pe_number f \<noteq> []"
  shows "(\<exists>b. verify_id w req = ([Pdftoppm, Python3], Some \<lparr> status = 200, body = b \<rparr>)
             \<and> get b ''valid'' = JBool True
             \<and> get b ''method'' = JStr ''passporteye''
             \<and> get b ''card_number'' = JStr (pe_number f))
         \<and> Ocrmypdf \<notin> set (fst (verify_id w req))
         \<and> Pdftotext \<notin> set (fst (verify_id w req))"
proof -
  have r: "readMrzWithPassportEye w = ([Pdftoppm, Python3], Inr (PeyeOk f))"
    by (rule readMrz_success [OF assms(5,6,7)])
  have p: "primarySuccess (peyeResultOf (snd (readMrzWithPassportEye w))) = Some f"
    using assms(8) by (simp add: r peyeResultOf_def primarySuccess_def)
  show ?thesis
    unfolding verify_id_reach [OF assms(1-4)] p
    by (simp add: r get_Cons)
qed

theorem primary_success_no_fallback_witness:
  "fst (verify_id (sample_world (Resolved (Some (PeyeOk sample_fields))) text_verified) pdf_request)
     = [Pdftoppm, Python3]
   \<and> map_option status
        (snd (verify_id (sample_world (Resolved (Some (PeyeOk sample_fields))) text_verified) pdf_request))
     = Some 200
   \<and> pe_number sample_fields = ''X4RTBPFW4''"
proof -
  have n: "pe_number sample_fields \<noteq> []"
    by (simp add: sample_fields_def)
  from primary_success_no_fallback [OF sample_world_ok(1,2,3,4,5,6) _ n,
        of "Resolved (Some (PeyeOk sample_fields))" text_verified]
  show ?thesis
    by (auto simp: sample_world_ok sample_fields_def)
qed

text \<open>
  C3: on the secondary path (the primary attempt has not succeeded and \<open>ocrmypdf\<close> has
  resolved) the answer is decided from the extracted text in this order: no card number
  gives 422 \<open>card_number_not_found\<close>; a card number without MRZ line 2 gives 422
  \<open>mrz_line2_not_found\<close>, with the card number; a normalized card number that is not a
  substring of the normalized line gives 422 \<open>card_number_mrz_mismatch\<close>; otherwise 200
  with \<open>valid = true\<close> and \<open>method = tesseract_fallback\<close>. An extracted card number has
  12 digits.
\<close>

theorem secondary_checks_order:
  assumes "req_file req = Some buf" and "isPdfBuffer buf"
    and "mkdtemp_run w = Resolved ()" and "writeFile_run w = Resolved ()"
    and "primarySuccess (peyeResultOf (snd (readMrzWithPassportEye w))) = None"
    and "ocrmypdf_run w = Resolved ()"
    and "r = parseTesseract (tesseractText w) (req_debug req)"
    and "num = extractCardNumberFromText (tesseractText w)"
    and "line2 = extractMrzLine2FromText (tesseractText w)"
  shows "snd (verify_id w req) = Some r
    \<and> (num = None \<longrightarrow>
          status r = 422 \<and> get (body r) ''valid'' = JBool False
          \<and> get (body r) ''reason'' = JStr ''card_number_not_found''
          \<and> get (body r) ''card_number'' = JUndefined)
    \<and> (\<forall>c. num = Some c \<longrightarrow> length c = 12 \<and> list_all isDigit c)
    \<and> (\<forall>c. num = Some c \<and> line2 = None \<longrightarrow>
          status r = 422 \<and> get (body r) ''valid'' = JBool False
          \<and> get (body r) ''reason'' = JStr ''mrz_line2_not_found''
          \<and> get (body r) ''card_number'' = JStr c)
    \<and> (\<forall>c l. num = Some c \<and> line2 = Some l \<and> \<not> sublist (normalizeMrz c) (normalizeMrz l) \<longrightarrow>
          status r = 422 \<and> get (body r) ''valid'' = JBool False
          \<and> get (body r) ''reason'' = JStr ''card_number_mrz_mismatch''
          \<and> get (body r) ''card_number'' = JStr c \<and> get (body r) ''mrz_line2'' = JStr l)
    \<and> (\<forall>c l. num = Some c \<and> line2 = Some l \<and> sublist (normalizeMrz c) (normalizeMrz l) \<longrightarrow>
          status r = 200 \<and> get (body r) ''valid'' = JBool True
          \<and> get (body r) ''method'' = JStr ''tesseract_fallback''
          \<and> get (body r) ''card_number'' = JStr c \<and> get (body r) ''mrz_line2'' = JStr l)"
proof (intro conjI allI impI)
  show "snd (verify_id w req) = Some r"
    unfolding verify_id_reach [OF assms(1-4)] assms(5)
    by (simp add: tesseractFallback_def assms(6,7))
next
  assume "num = None"
  then have "extractCardNumberFromText (tesseractText w) = None" by (simp add: assms(8))
  note e = parseTesseract_no_number [OF this, of "req_debug req", folded assms(7)]
  show "status r = 422" "get (body r) ''valid'' = JBool False"
    "get (body r) ''reason'' = JStr ''card_number_not_found''"
    "get (body r) ''card_number'' = JUndefined"
    by (simp_all add: e get_Cons get_Nil get_append debugField_def)
next
  fix c assume "num = Some c"
  then have "extractCardNumberFromText (tesseractText w) = Some c" by (simp add: assms(8))
  from extractCardNumber_digits [OF this]
  show "length c = 12" "list_all isDigit c" by simp_all
next
  fix c assume "num = Some c \<and> line2 = None"
  then have "extractCardNumberFromText (tesseractText w) = Some c"
    "extractMrzLine2FromText (tesseractText w) = None" by (simp_all add: assms(8,9))
  note e = parseTesseract_no_line2 [OF this, of "req_debug req", folded assms(7)]
  show "status r = 422" "get (body r) ''valid'' = JBool False"
    "get (body r) ''reason'' = JStr ''mrz_line2_not_found''"
    "get (body r) ''card_number'' = JStr c"
    by (simp_all add: e get_Cons get_Nil get_append debugField_def)
next
  fix c l
  assume "num = Some c \<and> line2 = Some l \<and> \<not> sublist (normalizeMrz c) (normalizeMrz l)"
  then have "extractCardNumberFromText (tesseractText w) = Some c"
    "extractMrzLine2FromText (tesseractText w) = Some l"
    "\<not> sublist (normalizeMrz c) (normalizeMrz l)" by (simp_all add: assms(8,9))
  note e = parseTesseract_mismatch [OF this, of "req_debug req", folded assms(7)]
  show "status r = 422" "get (body r) ''valid'' = JBool False"
    "get (body r) ''reason'' = JStr ''card_number_mrz_mismatch''"
    "get (body r) ''card_number'' = JStr c" "get (body r) ''mrz_line2'' = JStr l"
    by (simp_all add: e get_Cons get_Nil get_append debugField_def)
next
  fix c l
  assume "num = Some c \<and> line2 = Some l \<and> sublist (normalizeMrz c) (normalizeMrz l)"
  then have "extractCardNumberFromText (tesseractText w) = Some c"
    "extractMrzLine2FromText (tesseractText w) = Some l"
    "sublist (normalizeMrz c) (normalizeMrz l)" by (simp_all add: assms(8,9))
  note e = parseTesseract_verified [OF this, of "req_debug req", folded assms(7)]
  show "status r = 200" "get (body r) ''valid'' = JBool True"
    "get (body r) ''method'' = JStr ''tesseract_fallback''"
    "get (body r) ''card_number'' = JStr c" "get (body r) ''mrz_line2'' = JStr l"
    by (simp_all add: e get_Cons)
qed

lemma sample_fallback_primary:
  "primarySuccess (peyeResultOf (snd (readMrzWithPassportEye
      (sample_world (Resolved (Some (PeyeError e))) t)))) = None"
proof -
  have "readMrzWithPassportEye (sample_world (Resolved (Some (PeyeError e))) t)
          = ([Pdftoppm, Python3], Inr (PeyeError e))"
    by (rule readMrz_success) (simp_all add: sample_world_ok)
  then show ?thesis
    by (simp add: peyeResultOf_def primarySuccess_def)
qed

lemma sample_text_results:
  "extractCardNumberFromText text_no_number = None"
  "extractCardNumberFromText text_no_line2 = Some ''190238151174''"
  "extractMrzLine2FromText text_no_line2 = None"
  "extractCardNumberFromText text_mismatch = Some ''190238151175''"
  "extractMrzLine2FromText text_mismatch = Some ''1902381511749304301M3306275FRA<<<<<<<<<<<0''"
  "\<not> sublist (normalizeMrz ''190238151175'')
       (normalizeMrz ''1902381511749304301M3306275FRA<<<<<<<<<<<0'')"
  "extractCardNumberFromText text_verified = Some ''190238151174''"
  "extractMrzLine2FromText text_verified = Some ''1902381511749304301M3306275FRA<<<<<<<<<<<0''"
  "sublist (normalizeMrz ''190238151174'')
       (normalizeMrz ''1902381511749304301M3306275FRA<<<<<<<<<<<0'')"
  by code_simp+

theorem secondary_checks_order_witness:
  "map_option status (snd (verify_id
       (sample_world (Resolved (Some (PeyeError ''no_mrz_detected''))) text_no_number) pdf_request))
     = Some 422
   \<and> map_option status (snd (verify_id
       (sample_world (Resolved (Some (PeyeError ''no_mrz_detected''))) text_no_line2) pdf_request))
     = Some 422
   \<and> map_option status (snd (verify_id
       (sample_world (Resolved (Some (PeyeError ''no_mrz_detected''))) text_mismatch) pdf_request))
     = Some 422
   \<and> map_option status (snd (verify_id
       (sample_world (Resolved (Some (PeyeError ''no_mrz_detected''))) text_verified) pdf_request))
     = Some 200
   \<and> get (body (parseTesseract text_no_number False)) ''reason'' = JStr ''card_number_not_found''
   \<and> get (body (parseTesseract text_no_line2 False)) ''reason'' = JStr ''mrz_line2_not_found''
   \<and> get (body (parseTesseract text_no_line2 False)) ''card_number'' = JStr ''190238151174''
   \<and> get (body (parseTesseract text_mismatch False)) ''reason'' = JStr ''card_number_mrz_mismatch''
   \<and> get (body (parseTesseract text_verified False)) ''method'' = JStr ''tesseract_fallback''"
proof -
  let ?P = "Resolved (Some (PeyeError ''no_mrz_detected''))"
  have 1: "snd (verify_id (sample_world ?P text_no_number) pdf_request)
             = Some (parseTesseract text_no_number False)
           \<and> status (parseTesseract text_no_number False) = 422
           \<and> get (body (parseTesseract text_no_number False)) ''reason'' = JStr ''card_number_not_found''"
    using secondary_checks_order [where w = "sample_world ?P text_no_number" and req = pdf_request,
        OF sample_world_ok(1,2,3,4) sample_fallback_primary sample_world_ok(8) refl refl refl]
    by (simp add: sample_world_ok sample_text_results)
  have 2: "snd (verify_id (sample_world ?P text_no_line2) pdf_request)
             = Some (parseTesseract text_no_line2 False)
           \<and> status (parseTesseract text_no_line2 False) = 422
           \<and> get (body (parseTesseract text_no_line2 False)) ''reason'' = JStr ''mrz_line2_not_found''
           \<and> get (body (parseTesseract text_no_line2 False)) ''card_number'' = JStr ''190238151174''"
    using secondary_checks_order [where w = "sample_world ?P text_no_line2" and req = pdf_request,
        OF sample_world_ok(1,2,3,4) sample_fallback_primary sample_world_ok(8) refl refl refl]
    by (simp add: sample_world_ok sample_text_results)
  have 3: "snd (verify_id (sample_world ?P text_mismatch) pdf_request)
             = Some (parseTesseract text_mismatch False)
           \<and> status (parseTesseract text_mismatch False) = 422
           \<and> get (body (parseTesseract text_mismatch False)) ''reason'' = JStr ''card_number_mrz_mismatch''"
    using secondary_checks_order [where w = "sample_world ?P text_mismatch" and req = pdf_request,
        OF sample_world_ok(1,2,3,4) sample_fallback_primary sample_world_ok(8) refl refl refl]
    by (simp add: sample_world_ok sample_text_results)
  have 4: "snd (verify_id (sample_world ?P text_verified) pdf_request)
             = Some (parseTesseract text_verified False)
           \<and> status (parseTesseract text_verified False) = 200
           \<and> get (body (parseTesseract text_verified False)) ''method'' = JStr ''tesseract_fallback''"
    using secondary_checks_order [where w = "sample_world ?P text_verified" and req = pdf_request,
        OF sample_world_ok(1,2,3,4) sample_fallback_primary sample_world_ok(8) refl refl refl]
    by (simp add: sample_world_ok sample_text_results)
  show ?thesis using 1 2 3 4 by simp
qed

















end
